theory Spec2Isabelle
  imports Main "HOL-Library.Multiset"
begin

section \<open>Data model\<close>

text \<open>
  A \<^verbatim>\<open>Status\<close> (megalodon entity) as far as \<^verbatim>\<open>src/views/postpage.tsx\<close> reads it:
  \<^verbatim>\<open>id\<close>, \<^verbatim>\<open>in_reply_to_id\<close> (a string or \<^verbatim>\<open>null\<close>) and \<^verbatim>\<open>reblog?.id\<close>.
  The field \<^verbatim>\<open>id\<close> is called \<open>status_id\<close> here, since \<open>id\<close> is HOL's identity function.
\<close>

record status =
  status_id :: string
  in_reply_to_id :: "string option"
  reblog_id :: "string option"

text \<open>
  The two classes implementing \<^verbatim>\<open>IPostTreeNode\<close>. The code works on node objects through
  references (the identifier index holds references into the tree being built, and
  \<^verbatim>\<open>children.push\<close> mutates the object referred to), so every node carries the identity of
  its object, \<open>ref\<close>: two occurrences of one reference are one object.
\<close>

datatype node =
    PostTreeStatusNode (ref: nat) (status: status) (children: "node list") (highlighted: bool)
  | PostTreePlaceholderNode (ref: nat) (message: string) (children: "node list") (highlighted: bool)

fun tryGetStatus :: "node \<Rightarrow> status option" where
  "tryGetStatus (PostTreeStatusNode r s cs h) = Some s"
| "tryGetStatus (PostTreePlaceholderNode r m cs h) = None"

text \<open>
  What a thrown JavaScript value is to the \<^verbatim>\<open>catch\<close> block: an \<^verbatim>\<open>Error\<close> with its message,
  or anything else.
\<close>

datatype thrown = Error string | NotAnError

section \<open>Array helpers\<close>

text \<open>
  \<^verbatim>\<open>Array.prototype.findIndex\<close>: the first index whose element satisfies the predicate;
  \<open>None\<close> for -1.
\<close>

fun findIndex :: "('a \<Rightarrow> bool) \<Rightarrow> 'a list \<Rightarrow> nat option" where
  "findIndex p [] = None"
| "findIndex p (x # xs) =
     (if p x then Some 0 else (case findIndex p xs of None \<Rightarrow> None | Some k \<Rightarrow> Some (Suc k)))"

text \<open>\<^verbatim>\<open>xs.splice(i, 1)\<close>: the array without its element at index \<open>i\<close>.\<close>

definition splice1 :: "nat \<Rightarrow> 'a list \<Rightarrow> 'a list" where
  "splice1 i xs = take i xs @ drop (Suc i) xs"

text \<open>
  \<^verbatim>\<open>o.children.push(c)\<close> for the object with reference \<open>r\<close>, applied to an object graph that
  is held unfolded as a tree: every occurrence of the object gets the new child.
\<close>

fun push_child :: "nat \<Rightarrow> node \<Rightarrow> node \<Rightarrow> node" where
  "push_child r c (PostTreeStatusNode q s cs h) =
     PostTreeStatusNode q s (map (push_child r c) cs @ (if q = r then [c] else [])) h"
| "push_child r c (PostTreePlaceholderNode q m cs h) =
     PostTreePlaceholderNode q m (map (push_child r c) cs @ (if q = r then [c] else [])) h"

section \<open>The full build: locateRootNode and attachStatusesToTree\<close>

text \<open>
  The objects of one build: the node \<^verbatim>\<open>rootPost\<close>/\<^verbatim>\<open>rootNode\<close> refers to (with everything
  below it), the node objects that only the identifier index refers to (\<open>detached\<close>, each
  with everything below it), the index \<^verbatim>\<open>idMap\<close> from post identifiers to node references,
  the pool \<^verbatim>\<open>unsortedStatuses\<close>, and the next unused reference. A push onto the children of
  a node object (\<open>push_to\<close>) acts on that object wherever it is held.
\<close>

record build_state =
  rootNode :: node
  detached :: "node list"
  idMap :: "string \<rightharpoonup> nat"
  unsortedStatuses :: "status list"
  next_ref :: nat

definition push_to :: "nat \<Rightarrow> node \<Rightarrow> build_state \<Rightarrow> build_state" where
  "push_to r c st =
     st\<lparr>rootNode := push_child r c (rootNode st), detached := map (push_child r c) (detached st)\<rparr>"

text \<open>
  The \<^verbatim>\<open>while\<close> loop of \<^verbatim>\<open>locateRootNode\<close> (lines 199-216); \<open>new_root\<close> is its body
  after the search (lines 210-215). The condition of the loop reads \<^verbatim>\<open>status\<close>, which stays
  the requested status (\<open>requestedStatus\<close> here); the search reads the status of the current
  \<^verbatim>\<open>rootPost\<close>, which is a status node in every round; the index entry written in each round
  is the one of \<^verbatim>\<open>status.id\<close>, the identifier of the requested status. A \<^verbatim>\<open>null\<close> parent
  identifier equals no \<^verbatim>\<open>id\<close>, so the search then gives -1.
\<close>

definition new_root :: "status \<Rightarrow> nat \<Rightarrow> build_state \<Rightarrow> build_state" where
  "new_root requestedStatus parentStatusIndex st =
     (let newRootStatus = unsortedStatuses st ! parentStatusIndex;
          rootPost = PostTreeStatusNode (next_ref st) newRootStatus [rootNode st] False
      in st\<lparr>unsortedStatuses := splice1 parentStatusIndex (unsortedStatuses st),
            rootNode := rootPost,
            idMap := (idMap st)(status_id requestedStatus \<mapsto> next_ref st),
            next_ref := Suc (next_ref st)\<rparr>)"

function locate_loop :: "status \<Rightarrow> build_state \<Rightarrow> build_state" where
  "locate_loop requestedStatus st =
     (if in_reply_to_id requestedStatus \<noteq> None then
        (case findIndex (\<lambda>s. Some (status_id s) = in_reply_to_id (status (rootNode st)))
                (unsortedStatuses st) of
           None \<Rightarrow> st
         | Some parentStatusIndex \<Rightarrow>
             locate_loop requestedStatus (new_root requestedStatus parentStatusIndex st))
      else st)"
  by pat_completeness auto

lemma findIndex_less: "findIndex p xs = Some k \<Longrightarrow> k < length xs"
  by (induction xs arbitrary: k) (auto split: if_splits option.splits)

lemma length_splice1: "i < length xs \<Longrightarrow> length (splice1 i xs) = length xs - 1"
  by (simp add: splice1_def)

lemma unsortedStatuses_new_root [simp]:
  "unsortedStatuses (new_root requestedStatus k st) = splice1 k (unsortedStatuses st)"
  by (simp add: new_root_def Let_def)

termination locate_loop
  by (relation "measure (\<lambda>(requestedStatus, st). length (unsortedStatuses st))")
     (auto dest!: findIndex_less simp: length_splice1)

declare locate_loop.simps [simp del]

text \<open>
  \<^verbatim>\<open>locateRootNode(requestedStatus, idMap, unsortedStatuses)\<close>: the requested status
  becomes a highlighted node, is indexed, and the loop walks upward. The result holds the
  root found, the index and the pool as the call leaves them.
\<close>

definition locateRootNode :: "status \<Rightarrow> (string \<rightharpoonup> nat) \<Rightarrow> status list \<Rightarrow> build_state" where
  "locateRootNode requestedStatus idMap0 unsorted =
     locate_loop requestedStatus
       \<lparr>rootNode = PostTreeStatusNode 0 requestedStatus [] True,
        detached = [],
        idMap = idMap0(status_id requestedStatus \<mapsto> 0),
        unsortedStatuses = unsorted,
        next_ref = 1\<rparr>"

text \<open>
  The \<^verbatim>\<open>for\<close> loop of \<^verbatim>\<open>attachStatusesToTree\<close> (lines 232-253) from index \<open>i\<close> on;
  \<open>attach_under\<close> is what both attaching branches do with the status at index \<open>i\<close> (called
  \<open>post\<close> here) and the node they push onto. After \<^verbatim>\<open>splice(i, 1)\<close> the loop still
  increments \<open>i\<close>, so the element that moved to index \<open>i\<close> is not looked at in this pass.
  The pair returned is the state and \<^verbatim>\<open>numAdded\<close>.
\<close>

definition attach_under :: "nat \<Rightarrow> nat \<Rightarrow> build_state \<Rightarrow> build_state" where
  "attach_under parent i st =
     (let post = unsortedStatuses st ! i;
          s = PostTreeStatusNode (next_ref st) post [] False
      in (push_to parent s
            (st\<lparr>idMap := (idMap st)(status_id post \<mapsto> next_ref st),
                next_ref := Suc (next_ref st)\<rparr>))
         \<lparr>unsortedStatuses := splice1 i (unsortedStatuses st)\<rparr>)"

function attach_pass :: "nat \<Rightarrow> build_state \<Rightarrow> nat \<Rightarrow> build_state \<times> nat" where
  "attach_pass i st numAdded =
     (if i < length (unsortedStatuses st) then
        (case in_reply_to_id (unsortedStatuses st ! i) of
           None \<Rightarrow> attach_pass (i + 1) (attach_under (ref (rootNode st)) i st) (numAdded + 1)
         | Some parentId \<Rightarrow>
             (case idMap st parentId of
                Some existingParent \<Rightarrow>
                  attach_pass (i + 1) (attach_under existingParent i st) (numAdded + 1)
              | None \<Rightarrow> attach_pass (i + 1) st numAdded))
      else (st, numAdded))"
  by pat_completeness auto

lemma unsortedStatuses_push_to [simp]: "unsortedStatuses (push_to r c st) = unsortedStatuses st"
  by (simp add: push_to_def)

lemma unsortedStatuses_attach_under [simp]:
  "unsortedStatuses (attach_under p i st) = splice1 i (unsortedStatuses st)"
  by (simp add: attach_under_def Let_def)

termination attach_pass
  by (relation "measure (\<lambda>(i, st, numAdded). length (unsortedStatuses st) - i)")
     (auto simp: length_splice1)

declare attach_pass.simps [simp del]

text \<open>
  The branch \<^verbatim>\<open>numAdded === 0\<close> (lines 259-269): the last status of the pool is popped and
  wrapped in a status node; a placeholder object holding that node is created and indexed
  under the status's identifier; what is pushed onto the root's children is the status node.
  The placeholder is referred to by the index only. In the template string a \<^verbatim>\<open>null\<close>
  parent identifier prints as \<^verbatim>\<open>null\<close>.
\<close>

definition missing_post_message :: "status \<Rightarrow> string" where
  "missing_post_message post =
     ''Missing post id '' @ (case in_reply_to_id post of None \<Rightarrow> ''null'' | Some p \<Rightarrow> p)"

definition attach_missing :: "build_state \<Rightarrow> build_state" where
  "attach_missing st =
     (let post = last (unsortedStatuses st);
          statusNode = PostTreeStatusNode (next_ref st) post [] False;
          missingPostMarker =
            PostTreePlaceholderNode (Suc (next_ref st)) (missing_post_message post) [statusNode] False
      in push_to (ref (rootNode st)) statusNode
           (st\<lparr>unsortedStatuses := butlast (unsortedStatuses st),
               idMap := (idMap st)(status_id post \<mapsto> Suc (next_ref st)),
               detached := detached st @ [missingPostMarker],
               next_ref := Suc (Suc (next_ref st))\<rparr>))"

lemma attach_pass_length:
  "length (unsortedStatuses (fst (attach_pass i st n))) + snd (attach_pass i st n) =
   length (unsortedStatuses st) + n"
proof (induction i st n rule: attach_pass.induct)
  case (1 i st numAdded)
  show ?case
  proof (cases "i < length (unsortedStatuses st)")
    case False
    then show ?thesis by (simp add: attach_pass.simps)
  next
    case True
    then have len: "length (splice1 i (unsortedStatuses st)) = length (unsortedStatuses st) - 1"
      and pos: "0 < length (unsortedStatuses st)"
      by (auto simp: length_splice1)
    show ?thesis
    proof (cases "in_reply_to_id (unsortedStatuses st ! i)")
      case None
      with True "1.IH"(1) [OF True None] len pos show ?thesis
        by (simp add: attach_pass.simps [of i])
    next
      case (Some parentId)
      note parent = this
      show ?thesis
      proof (cases "idMap st parentId")
        case None
        with True parent "1.IH"(2) [OF True parent None] show ?thesis
          by (simp add: attach_pass.simps [of i])
      next
        case (Some existingParent)
        with True parent "1.IH"(3) [OF True parent Some] len pos show ?thesis
          by (simp add: attach_pass.simps [of i])
      qed
    qed
  qed
qed

text \<open>
  The \<^verbatim>\<open>while\<close> loop of \<^verbatim>\<open>attachStatusesToTree\<close> (lines 229-270); the root node is the one
  of the state.
\<close>

function attachStatusesToTree :: "build_state \<Rightarrow> build_state" where
  "attachStatusesToTree st =
     (if length (unsortedStatuses st) > 0 then
        (let pass = attach_pass 0 st 0 in
           if length (unsortedStatuses (fst pass)) = 0 then fst pass
           else if snd pass = 0 then attachStatusesToTree (attach_missing (fst pass))
           else attachStatusesToTree (fst pass))
      else st)"
  by pat_completeness auto

lemma unsortedStatuses_attach_missing [simp]:
  "unsortedStatuses (attach_missing st) = butlast (unsortedStatuses st)"
  by (simp add: attach_missing_def Let_def)

termination attachStatusesToTree
proof (relation "measure (\<lambda>st. length (unsortedStatuses st))")
  show "wf (measure (\<lambda>st. length (unsortedStatuses st)))" by simp
next
  fix st :: build_state and pass
  assume "0 < length (unsortedStatuses st)" and "pass = attach_pass 0 st 0"
    and "length (unsortedStatuses (fst pass)) \<noteq> 0" and "snd pass = 0"
  then show "(attach_missing (fst pass), st) \<in> measure (\<lambda>st. length (unsortedStatuses st))"
    using attach_pass_length [of 0 st 0] by auto
next
  fix st :: build_state and pass
  assume "0 < length (unsortedStatuses st)" and "pass = attach_pass 0 st 0"
    and "length (unsortedStatuses (fst pass)) \<noteq> 0" and "snd pass \<noteq> 0"
  then show "(fst pass, st) \<in> measure (\<lambda>st. length (unsortedStatuses st))"
    using attach_pass_length [of 0 st 0] by auto
qed

declare attachStatusesToTree.simps [simp del]

text \<open>
  The body of the \<^verbatim>\<open>try\<close> block once the context is there (lines 136-150): the pool is
  the ancestors followed by the descendants, the index starts empty, and the node returned
  is the root that \<^verbatim>\<open>locateRootNode\<close> found, after \<^verbatim>\<open>attachStatusesToTree\<close> has worked on it.
  The specification calls this \<^verbatim>\<open>buildThreadTree\<close>.
\<close>

definition build_final :: "status \<Rightarrow> status list \<Rightarrow> status list \<Rightarrow> build_state" where
  "build_final requestedStatus ancestors descendants =
     attachStatusesToTree (locateRootNode requestedStatus Map.empty (ancestors @ descendants))"

definition buildThreadTree :: "status \<Rightarrow> status list \<Rightarrow> status list \<Rightarrow> node" where
  "buildThreadTree requestedStatus ancestors descendants =
     rootNode (build_final requestedStatus ancestors descendants)"

section \<open>The context fetch and its failure (lines 119-177)\<close>

record status_context =
  ancestors :: "status list"
  descendants :: "status list"

text \<open>
  The authenticated client, as far as \<^verbatim>\<open>fetchPostInfoTree\<close> uses it. Each function gives the
  outcome of awaiting the request and checking its response (\<^verbatim>\<open>unwrapResponse\<close>, or the
  status check of lines 64-68): the data, or the value thrown. A context response without
  data is \<open>Inr None\<close>.
\<close>

record client =
  getStatus :: "string \<Rightarrow> thrown + status"
  getStatusContext :: "string \<Rightarrow> thrown + status_context option"

definition postIdForContext :: "status \<Rightarrow> string" where
  "postIdForContext requestedStatus =
     (case reblog_id requestedStatus of Some r \<Rightarrow> r | None \<Rightarrow> status_id requestedStatus)"

definition context_or_throw :: "thrown + status_context option \<Rightarrow> thrown + status_context" where
  "context_or_throw outcome =
     (case outcome of
        Inl e \<Rightarrow> Inl e
      | Inr None \<Rightarrow> Inl (Error ''status context undefined'')
      | Inr (Some requestedStatusContext) \<Rightarrow> Inr requestedStatusContext)"

definition failure_message :: "string \<Rightarrow> thrown \<Rightarrow> string" where
  "failure_message postId e =
     ''Failed to get context for post '' @ postId @ '': '' @
       (case e of Error m \<Rightarrow> m | NotAnError \<Rightarrow> ''unknown error'')"

definition fetchContextTree :: "client \<Rightarrow> string \<Rightarrow> status \<Rightarrow> node" where
  "fetchContextTree cl postId requestedStatus =
     (case context_or_throw (getStatusContext cl (postIdForContext requestedStatus)) of
        Inr requestedStatusContext \<Rightarrow>
          buildThreadTree requestedStatus
            (ancestors requestedStatusContext) (descendants requestedStatusContext)
      | Inl e \<Rightarrow>
          (let errorNode = PostTreePlaceholderNode 0 (failure_message postId e) [] False
           in PostTreeStatusNode 1 requestedStatus [errorNode] True))"

section \<open>The incremental patch (lines 70-117)\<close>

text \<open>\<^verbatim>\<open>node.children.push(c)\<close> on the node at hand.\<close>

fun children_push :: "node \<Rightarrow> node \<Rightarrow> node" where
  "children_push (PostTreeStatusNode q s cs h) c = PostTreeStatusNode q s (cs @ [c]) h"
| "children_push (PostTreePlaceholderNode q m cs h) c = PostTreePlaceholderNode q m (cs @ [c]) h"

text \<open>
  The closure \<^verbatim>\<open>tryAttachTo\<close> with the two variables it captures, \<^verbatim>\<open>visited\<close> and
  \<^verbatim>\<open>success\<close>, passed along; \<open>Inl\<close> is the \<^verbatim>\<open>throw\<close> of line 80, which ends the walk.
  The \<^verbatim>\<open>return\<close> after a match leaves only the call for the matching node: the loops of
  the callers go on with the next child.
\<close>

fun tryAttachTo :: "string option \<Rightarrow> node \<Rightarrow> node \<Rightarrow> string list \<times> bool
      \<Rightarrow> thrown + (node \<times> string list \<times> bool)"
  and tryAttachToEach :: "string option \<Rightarrow> node \<Rightarrow> node list \<Rightarrow> string list \<times> bool
      \<Rightarrow> thrown + (node list \<times> string list \<times> bool)" where
  "tryAttachTo targetId new (PostTreeStatusNode q s cs h) (visited, success) =
     (if status_id s \<in> set visited
      then Inl (Error (''visited the same status '' @ status_id s @ '' twice.''))
      else if Some (status_id s) = targetId
      then Inr (PostTreeStatusNode q s (cs @ [new]) h, visited @ [status_id s], True)
      else (case tryAttachToEach targetId new cs (visited @ [status_id s], success) of
              Inl e \<Rightarrow> Inl e
            | Inr (cs', vs) \<Rightarrow> Inr (PostTreeStatusNode q s cs' h, vs)))"
| "tryAttachTo targetId new (PostTreePlaceholderNode q m cs h) (visited, success) =
     (case tryAttachToEach targetId new cs (visited, success) of
        Inl e \<Rightarrow> Inl e
      | Inr (cs', vs) \<Rightarrow> Inr (PostTreePlaceholderNode q m cs' h, vs))"
| "tryAttachToEach targetId new [] vs = Inr ([], vs)"
| "tryAttachToEach targetId new (child # rest) vs =
     (case tryAttachTo targetId new child vs of
        Inl e \<Rightarrow> Inl e
      | Inr (child', vs') \<Rightarrow>
          (case tryAttachToEach targetId new rest vs' of
             Inl e \<Rightarrow> Inl e
           | Inr (rest', vs'') \<Rightarrow> Inr (child' # rest', vs'')))"

text \<open>
  Lines 70-117 with the new comment fetched: \<open>r\<close> is the reference of the node object
  created for it. The specification calls this \<^verbatim>\<open>patchNewReply\<close>.
\<close>

definition patchNewReply :: "nat \<Rightarrow> node \<Rightarrow> status \<Rightarrow> thrown + node" where
  "patchNewReply r previousTree newComment =
     (case tryAttachTo (in_reply_to_id newComment) (PostTreeStatusNode r newComment [] True)
             previousTree ([], False) of
        Inl e \<Rightarrow> Inl e
      | Inr (tree, visited, success) \<Rightarrow>
          (if \<not> success
           then Inr (children_push tree (PostTreeStatusNode r newComment [] True))
           else Inr tree))"

section \<open>fetchPostInfoTree\<close>

definition fetchPostInfoTree ::
  "bool \<Rightarrow> client \<Rightarrow> string \<Rightarrow> string option \<Rightarrow> node option \<Rightarrow> nat \<Rightarrow> thrown + node" where
  "fetchPostInfoTree signedIn cl postId newCommentId previousTree r =
     (if \<not> signedIn then Inr (PostTreePlaceholderNode 0 ''not signed in'' [] False)
      else
        (case (previousTree, newCommentId) of
           (Some tree, Some commentId) \<Rightarrow>
             (case getStatus cl commentId of
                Inl e \<Rightarrow> Inl e
              | Inr newComment \<Rightarrow> patchNewReply r tree newComment)
         | _ \<Rightarrow>
             (case getStatus cl postId of
                Inl e \<Rightarrow> Inl e
              | Inr requestedStatus \<Rightarrow> Inr (fetchContextTree cl postId requestedStatus))))"

section \<open>The default feed rules (src/components/feed/index.tsx, lines 120-191)\<close>

text \<open>
  Modelled from the spec: the class \<^verbatim>\<open>FeedRuleProperties\<close> is declared in \<^verbatim>\<open>feed-engine\<close>,
  which is not among the sources. A rule is the three arguments its constructor is given
  in \<^verbatim>\<open>index.tsx\<close>: a name, a condition object \<^verbatim>\<open>{all: [...]}\<close> of atomic comparisons
  (fact, operator, optional path, value) and an event (a type and, for \<^verbatim>\<open>applyLabel\<close>, the
  label in \<^verbatim>\<open>params\<close>).
\<close>

datatype rule_value = Null | Str string

record rule_condition =
  fact :: string
  operator :: string
  path :: "string option"
  cond_value :: rule_value

datatype rule_conditions = AllOf "rule_condition list"

record rule_event =
  event_type :: string
  params_label :: "string option"

record FeedRuleProperties =
  rule_name :: string
  conditions :: rule_conditions
  event :: rule_event

definition defaultHomeFeedRules :: "FeedRuleProperties list" where
  "defaultHomeFeedRules =
     [\<lparr>rule_name = ''hide replies from feed'',
       conditions = AllOf [\<lparr>fact = ''in_reply_to_id'', operator = ''notEqual'', path = None,
                          cond_value = Null\<rparr>],
       event = \<lparr>event_type = ''hidePost'', params_label = None\<rparr>\<rparr>,
      \<lparr>rule_name = ''attach linked ancestor posts to all posts when available'',
       conditions = AllOf [\<lparr>fact = ''id'', operator = ''notEqual'', path = None,
                          cond_value = Null\<rparr>],
       event = \<lparr>event_type = ''attachLinked'', params_label = None\<rparr>\<rparr>]"

definition defaultFeedRules :: "FeedRuleProperties list" where
  "defaultFeedRules =
     [\<lparr>rule_name = ''hide replies from feed'',
       conditions = AllOf [\<lparr>fact = ''in_reply_to_id'', operator = ''notEqual'', path = None,
                          cond_value = Null\<rparr>],
       event = \<lparr>event_type = ''hidePost'', params_label = None\<rparr>\<rparr>,
      \<lparr>rule_name = ''attach linked ancestor posts to all posts when available'',
       conditions = AllOf [\<lparr>fact = ''id'', operator = ''notEqual'', path = None,
                          cond_value = Null\<rparr>],
       event = \<lparr>event_type = ''attachLinked'', params_label = None\<rparr>\<rparr>,
      \<lparr>rule_name = ''label posts written with pillbug'',
       conditions = AllOf [\<lparr>fact = ''application'', operator = ''equal'', path = Some ''$.name'',
                          cond_value = Str ''pillbug''\<rparr>],
       event = \<lparr>event_type = ''applyLabel'', params_label = Some ''pillbug''\<rparr>\<rparr>]"

section \<open>What a tree shows\<close>

text \<open>The statuses wrapped by the status nodes of a tree, the node itself first.\<close>

fun statuses_of :: "node \<Rightarrow> status list" where
  "statuses_of (PostTreeStatusNode q s cs h) = s # concat (map statuses_of cs)"
| "statuses_of (PostTreePlaceholderNode q m cs h) = concat (map statuses_of cs)"

definition ids_of :: "node \<Rightarrow> string list" where
  "ids_of t = map status_id (statuses_of t)"

text \<open>The references of the node objects of a tree, one entry for each occurrence.\<close>

fun refs_of :: "node \<Rightarrow> nat list" where
  "refs_of (PostTreeStatusNode q s cs h) = q # concat (map refs_of cs)"
| "refs_of (PostTreePlaceholderNode q m cs h) = q # concat (map refs_of cs)"

fun placeholder_count :: "node \<Rightarrow> nat" where
  "placeholder_count (PostTreeStatusNode q s cs h) = sum_list (map placeholder_count cs)"
| "placeholder_count (PostTreePlaceholderNode q m cs h) = Suc (sum_list (map placeholder_count cs))"

fun node_count :: "node \<Rightarrow> nat" where
  "node_count (PostTreeStatusNode q s cs h) = Suc (sum_list (map node_count cs))"
| "node_count (PostTreePlaceholderNode q m cs h) = Suc (sum_list (map node_count cs))"

text \<open>
  A node as an end of an edge: the identifier of its status, or the message of a
  placeholder. The edges of a tree are the parent/child pairs of its nodes.
\<close>

fun node_key :: "node \<Rightarrow> string + string" where
  "node_key (PostTreeStatusNode q s cs h) = Inl (status_id s)"
| "node_key (PostTreePlaceholderNode q m cs h) = Inr m"

fun edges :: "node \<Rightarrow> ((string + string) \<times> (string + string)) list" where
  "edges (PostTreeStatusNode q s cs h) =
     map (\<lambda>c. (Inl (status_id s), node_key c)) cs @ concat (map edges cs)"
| "edges (PostTreePlaceholderNode q m cs h) =
     map (\<lambda>c. (Inr m, node_key c)) cs @ concat (map edges cs)"

section \<open>Notions for the proofs\<close>

text \<open>
  \<open>gains_child k c t t'\<close>: the tree \<open>t'\<close> is the tree \<open>t\<close> in which one node, whose key is \<open>k\<close>,
  has \<open>c\<close> as a new last child; nothing else differs.
\<close>

inductive gains_child :: "string + string \<Rightarrow> node \<Rightarrow> node \<Rightarrow> node \<Rightarrow> bool" where
  here: "node_key t = k \<Longrightarrow> gains_child k c t (children_push t c)"
| below_status: "gains_child k c x x' \<Longrightarrow>
     gains_child k c (PostTreeStatusNode q s (as @ x # bs) h) (PostTreeStatusNode q s (as @ x' # bs) h)"
| below_placeholder: "gains_child k c x x' \<Longrightarrow>
     gains_child k c (PostTreePlaceholderNode q m (as @ x # bs) h)
       (PostTreePlaceholderNode q m (as @ x' # bs) h)"

text \<open>The key of the node object with a given reference.\<close>

fun keyed_refs :: "node \<Rightarrow> (nat \<times> (string + string)) list" where
  "keyed_refs (PostTreeStatusNode q s cs h) = (q, Inl (status_id s)) # concat (map keyed_refs cs)"
| "keyed_refs (PostTreePlaceholderNode q m cs h) = (q, Inr m) # concat (map keyed_refs cs)"

definition key_at :: "node \<Rightarrow> nat \<Rightarrow> (string + string) option" where
  "key_at t a = map_of (keyed_refs t) a"

text \<open>The node that a status of the pool is attached to in a pass, if there is one.\<close>

definition attach_target :: "build_state \<Rightarrow> nat \<Rightarrow> nat option" where
  "attach_target st i =
     (case in_reply_to_id (unsortedStatuses st ! i) of
        None \<Rightarrow> Some (ref (rootNode st))
      | Some parentId \<Rightarrow> idMap st parentId)"

text \<open>
  What holds of the root node throughout a build: no node object occurs twice in it, its
  references are below the next free one, and it holds no placeholder.
\<close>

definition tree_ok :: "build_state \<Rightarrow> bool" where
  "tree_ok st \<longleftrightarrow>
     distinct (refs_of (rootNode st)) \<and> (\<forall>q \<in> set (refs_of (rootNode st)). q < next_ref st)
     \<and> placeholder_count (rootNode st) = 0"

text \<open>The statuses in the tree and in the pool are among those of a multiset \<open>M\<close>.\<close>

definition statuses_within :: "status multiset \<Rightarrow> build_state \<Rightarrow> bool" where
  "statuses_within M st \<longleftrightarrow>
     tree_ok st \<and> mset (statuses_of (rootNode st)) + mset (unsortedStatuses st) \<subseteq># M"

text \<open>
  \<open>attach_below tgt c t\<close>: the tree \<open>t\<close> in which the status node whose identifier is \<open>tgt\<close>
  has \<open>c\<close> as a new last child (what the specification asks of \<^verbatim>\<open>patchNewReply\<close> when the
  parent is in the tree). \<open>walk_ids\<close> lists the identifiers that the walk of \<open>tryAttachTo\<close>
  comes by: it does not go below the node it attaches to.
\<close>

fun attach_below :: "string option \<Rightarrow> node \<Rightarrow> node \<Rightarrow> node" where
  "attach_below tgt c (PostTreeStatusNode q s cs h) =
     (if Some (status_id s) = tgt then PostTreeStatusNode q s (cs @ [c]) h
      else PostTreeStatusNode q s (map (attach_below tgt c) cs) h)"
| "attach_below tgt c (PostTreePlaceholderNode q m cs h) =
     PostTreePlaceholderNode q m (map (attach_below tgt c) cs) h"

fun walk_ids :: "string option \<Rightarrow> node \<Rightarrow> string list" where
  "walk_ids tgt (PostTreeStatusNode q s cs h) =
     status_id s # (if Some (status_id s) = tgt then [] else concat (map (walk_ids tgt) cs))"
| "walk_ids tgt (PostTreePlaceholderNode q m cs h) = concat (map (walk_ids tgt) cs)"

text \<open>
  For a build whose requested status has the identifier \<open>rid\<close> and whose root has the key
  \<open>rk\<close>: the key of the node that the index holds for an identifier, and the edge that
  attaching a status of the pool adds.
\<close>

definition index_key :: "string \<Rightarrow> string + string \<Rightarrow> string \<Rightarrow> string + string" where
  "index_key rid rk k = (if k = rid then rk else Inl k)"

definition expected_edge ::
  "string \<Rightarrow> string + string \<Rightarrow> status \<Rightarrow> (string + string) \<times> (string + string)" where
  "expected_edge rid rk s =
     ((case in_reply_to_id s of None \<Rightarrow> rk | Some k \<Rightarrow> index_key rid rk k), Inl (status_id s))"

definition edges_inv ::
  "string \<Rightarrow> string + string \<Rightarrow> ((string + string) \<times> (string + string)) set
     \<Rightarrow> build_state \<Rightarrow> bool" where
  "edges_inv rid rk E st \<longleftrightarrow>
     tree_ok st \<and> node_key (rootNode st) = rk
     \<and> rid \<notin> status_id ` set (unsortedStatuses st)
     \<and> (\<forall>k a. idMap st k = Some a \<longrightarrow> key_at (rootNode st) a = Some (index_key rid rk k))
     \<and> set (edges (rootNode st)) \<union> expected_edge rid rk ` set (unsortedStatuses st) = E"

text \<open>What holds of the state when \<^verbatim>\<open>locateRootNode\<close> returns.\<close>

definition located :: "string \<Rightarrow> status set \<Rightarrow> build_state \<Rightarrow> bool" where
  "located rid S st \<longleftrightarrow>
     tree_ok st \<and> set (unsortedStatuses st) \<subseteq> S \<and> idMap st = [rid \<mapsto> ref (rootNode st)]"

text \<open>
  The condition of C2 on a requested status and a pool: every status of the pool has a
  parent identifier, and it is the identifier of the requested status or of another status
  of the pool.
\<close>

definition every_parent_present :: "status \<Rightarrow> status list \<Rightarrow> bool" where
  "every_parent_present requestedStatus pool \<longleftrightarrow>
     list_all (\<lambda>s. case in_reply_to_id s of
                      None \<Rightarrow> False
                    | Some p \<Rightarrow> p = status_id requestedStatus
                        \<or> list_ex (\<lambda>t. t \<noteq> s \<and> status_id t = p) pool) pool"

text \<open>
  Conditions added to the one of C2. \<open>descends n rid pool k\<close>: from the identifier \<open>k\<close>, going
  from a status of the pool to its parent identifier at most \<open>n\<close> times comes to \<open>rid\<close>.
  \<open>every_post_descends\<close>: the parent of every status of the pool comes to the requested status
  in this way, in as many steps as the pool is long (so the statuses do not refer to each
  other in a cycle). \<open>parent_not_fetched\<close>: the parent of the requested status, if it has one,
  is no status of the pool.
\<close>

fun descends :: "nat \<Rightarrow> string \<Rightarrow> status list \<Rightarrow> string \<Rightarrow> bool" where
  "descends 0 rid pool k \<longleftrightarrow> k = rid"
| "descends (Suc n) rid pool k \<longleftrightarrow>
     k = rid \<or> list_ex (\<lambda>s. status_id s = k
       \<and> (case in_reply_to_id s of None \<Rightarrow> False | Some k' \<Rightarrow> descends n rid pool k')) pool"

definition every_post_descends :: "status \<Rightarrow> status list \<Rightarrow> bool" where
  "every_post_descends requestedStatus pool \<longleftrightarrow>
     list_all (\<lambda>s. case in_reply_to_id s of
                      None \<Rightarrow> False
                    | Some k \<Rightarrow> descends (length pool) (status_id requestedStatus) pool k) pool"



text \<open>A status that is no reblog, for the concrete inputs below.\<close>

definition post :: "string \<Rightarrow> string option \<Rightarrow> status" where
  "post i p = \<lparr>status_id = i, in_reply_to_id = p, reblog_id = None\<rparr>"

lemmas build_eval = buildThreadTree_def build_final_def locateRootNode_def locate_loop.simps
  new_root_def
  attachStatusesToTree.simps attach_pass.simps attach_missing_def push_to_def attach_under_def
  Let_def missing_post_message_def splice1_def post_def

lemmas fetch_eval = fetchPostInfoTree_def fetchContextTree_def context_or_throw_def
  postIdForContext_def failure_message_def

section \<open>The lengths of the pool\<close>

lemma locate_loop_length:
  "length (unsortedStatuses (locate_loop requestedStatus st)) \<le> length (unsortedStatuses st)"
proof (induction requestedStatus st rule: locate_loop.induct)
  case (1 requestedStatus st)
  show ?case
  proof (cases "in_reply_to_id requestedStatus = None")
    case True
    then show ?thesis by (simp add: locate_loop.simps)
  next
    case False
    note reply = this
    show ?thesis
    proof (cases "findIndex (\<lambda>s. Some (status_id s) = in_reply_to_id (status (rootNode st)))
                    (unsortedStatuses st)")
      case None
      with reply show ?thesis by (simp add: locate_loop.simps)
    next
      case (Some k)
      from findIndex_less [OF Some] have "k < length (unsortedStatuses st)" .
      with "1.IH" [OF reply Some] reply Some show ?thesis
        by (simp add: locate_loop.simps [of requestedStatus st] new_root_def Let_def
            length_splice1)
    qed
  qed
qed

lemma attachStatusesToTree_empty: "unsortedStatuses (attachStatusesToTree st) = []"
proof (induction st rule: attachStatusesToTree.induct)
  case (1 st)
  show ?case
  proof (cases "0 < length (unsortedStatuses st)")
    case False
    then show ?thesis by (simp add: attachStatusesToTree.simps)
  next
    case True
    show ?thesis
      using True "1.IH"(1) [OF True refl] "1.IH"(2) [OF True refl]
      by (simp add: attachStatusesToTree.simps [of st] Let_def)
  qed
qed

lemma locate_loop_count:
  "node_count (rootNode (locate_loop requestedStatus st))
     + length (unsortedStatuses (locate_loop requestedStatus st))
   = node_count (rootNode st) + length (unsortedStatuses st)"
proof (induction requestedStatus st rule: locate_loop.induct)
  case (1 requestedStatus st)
  show ?case
  proof (cases "in_reply_to_id requestedStatus = None")
    case True
    then show ?thesis by (simp add: locate_loop.simps)
  next
    case False
    note reply = this
    show ?thesis
    proof (cases "findIndex (\<lambda>s. Some (status_id s) = in_reply_to_id (status (rootNode st)))
                    (unsortedStatuses st)")
      case None
      with reply show ?thesis by (simp add: locate_loop.simps)
    next
      case (Some k)
      from findIndex_less [OF Some] have "k < length (unsortedStatuses st)" .
      with "1.IH" [OF reply Some] reply Some show ?thesis
        by (simp add: locate_loop.simps [of requestedStatus st] new_root_def Let_def
            length_splice1)
    qed
  qed
qed

section \<open>Pushing a child onto a node of a tree\<close>

lemma map_fst_keyed_refs: "map fst (keyed_refs t) = refs_of t"
  by (induction t) (auto simp: map_concat intro!: arg_cong [where f = concat])

lemma push_child_absent: "r \<notin> set (refs_of t) \<Longrightarrow> push_child r c t = t"
  by (induction t) (auto intro: map_idI)

lemma children_push_simps [simp]:
  "refs_of (children_push t c) = refs_of t @ refs_of c"
  "statuses_of (children_push t c) = statuses_of t @ statuses_of c"
  "placeholder_count (children_push t c) = placeholder_count t + placeholder_count c"
  "node_count (children_push t c) = node_count t + node_count c"
  "node_key (children_push t c) = node_key t"
  "keyed_refs (children_push t c) = keyed_refs t @ keyed_refs c"
  by (cases t; simp)+

lemma gains_child_refs:
  "gains_child k c t t' \<Longrightarrow> mset (refs_of t') = mset (refs_of t) + mset (refs_of c)"
  by (induction rule: gains_child.induct) auto

lemma gains_child_statuses:
  "gains_child k c t t' \<Longrightarrow> mset (statuses_of t') = mset (statuses_of t) + mset (statuses_of c)"
  by (induction rule: gains_child.induct) auto

lemma gains_child_placeholder_count:
  "gains_child k c t t' \<Longrightarrow> placeholder_count t' = placeholder_count t + placeholder_count c"
  by (induction rule: gains_child.induct) auto

lemma gains_child_node_count:
  "gains_child k c t t' \<Longrightarrow> node_count t' = node_count t + node_count c"
  by (induction rule: gains_child.induct) auto

lemma gains_child_key: "gains_child k c t t' \<Longrightarrow> node_key t' = node_key t"
  by (induction rule: gains_child.induct) auto

lemma gains_child_edges:
  "gains_child k c t t' \<Longrightarrow>
   set (edges t') = set (edges t) \<union> {(k, node_key c)} \<union> set (edges c)"
proof (induction rule: gains_child.induct)
  case (here t k c)
  then show ?case by (cases t) auto
next
  case (below_status k c x x' q s as bs h)
  then show ?case using gains_child_key [OF below_status.hyps] by auto
next
  case (below_placeholder k c x x' q m as bs h)
  then show ?case using gains_child_key [OF below_placeholder.hyps] by auto
qed


lemma key_at_None: "a \<notin> set (refs_of t) \<Longrightarrow> key_at t a = None"
  by (simp add: key_at_def map_of_eq_None_iff map_fst_keyed_refs [symmetric] del: map_fst_keyed_refs)

lemma key_at_split:
  "distinct (concat (map refs_of cs)) \<Longrightarrow> map_of (concat (map keyed_refs cs)) a = Some k \<Longrightarrow>
   \<exists>as x bs. cs = as @ x # bs \<and> key_at x a = Some k
     \<and> (\<forall>y \<in> set as \<union> set bs. a \<notin> set (refs_of y))"
proof (induction cs)
  case Nil
  then show ?case by simp
next
  case (Cons y ys)
  show ?case
  proof (cases "a \<in> set (refs_of y)")
    case True
    then have "a \<in> fst ` set (keyed_refs y)"
      by (simp add: map_fst_keyed_refs [symmetric] del: map_fst_keyed_refs)
    then obtain k' where k': "map_of (keyed_refs y) a = Some k'"
      by (metis map_of_eq_None_iff not_Some_eq)
    with Cons.prems(2) have "key_at y a = Some k"
      by (simp add: key_at_def map_add_Some_iff)
    moreover from True Cons.prems(1) have "\<forall>z \<in> set ys. a \<notin> set (refs_of z)"
      by auto
    ultimately have "y # ys = [] @ y # ys \<and> key_at y a = Some k
        \<and> (\<forall>z \<in> set [] \<union> set ys. a \<notin> set (refs_of z))"
      by simp
    then show ?thesis by blast
  next
    case False
    then have "map_of (keyed_refs y) a = None"
      using key_at_None [of a y] by (simp add: key_at_def)
    with Cons.prems(2) have "map_of (concat (map keyed_refs ys)) a = Some k"
      by (simp add: map_add_Some_iff)
    moreover from Cons.prems(1) have "distinct (concat (map refs_of ys))" by simp
    ultimately obtain as x bs where
      "ys = as @ x # bs" "key_at x a = Some k" "\<forall>z \<in> set as \<union> set bs. a \<notin> set (refs_of z)"
      using Cons.IH by blast
    with False have "y # ys = (y # as) @ x # bs \<and> key_at x a = Some k
        \<and> (\<forall>z \<in> set (y # as) \<union> set bs. a \<notin> set (refs_of z))"
      by simp
    then show ?thesis by blast
  qed
qed

lemma push_child_children:
  assumes "cs = as @ x # bs" and "\<forall>y \<in> set as \<union> set bs. a \<notin> set (refs_of y)"
  shows "map (push_child a c) cs = as @ push_child a c x # bs"
proof -
  have "map (push_child a c) as = as" "map (push_child a c) bs = bs"
    using assms(2) by (auto intro!: map_idI push_child_absent)
  with assms(1) show ?thesis by simp
qed

lemma push_child_gains:
  "distinct (refs_of t) \<Longrightarrow> key_at t a = Some k \<Longrightarrow> gains_child k c t (push_child a c t)"
proof (induction t)
  case (PostTreeStatusNode q s cs h)
  show ?case
  proof (cases "q = a")
    case True
    with PostTreeStatusNode.prems have k: "k = Inl (status_id s)"
      and "\<forall>y \<in> set cs. a \<notin> set (refs_of y)"
      by (auto simp: key_at_def)
    then have "map (push_child a c) cs = cs"
      by (auto intro!: map_idI push_child_absent)
    with True have "push_child a c (PostTreeStatusNode q s cs h)
        = children_push (PostTreeStatusNode q s cs h) c"
      by simp
    with k show ?thesis using gains_child.here [of "PostTreeStatusNode q s cs h" k c] by simp
  next
    case False
    with PostTreeStatusNode.prems have "map_of (concat (map keyed_refs cs)) a = Some k"
      and d: "distinct (concat (map refs_of cs))"
      by (auto simp: key_at_def)
    then obtain as x bs where split: "cs = as @ x # bs" and kx: "key_at x a = Some k"
      and rest: "\<forall>y \<in> set as \<union> set bs. a \<notin> set (refs_of y)"
      using key_at_split by blast
    from d split have "distinct (refs_of x)" by simp
    with PostTreeStatusNode.IH [of x] split kx have "gains_child k c x (push_child a c x)"
      by simp
    then have "gains_child k c (PostTreeStatusNode q s (as @ x # bs) h)
        (PostTreeStatusNode q s (as @ push_child a c x # bs) h)"
      by (rule gains_child.below_status)
    with False split push_child_children [OF split rest, of c] show ?thesis by simp
  qed
next
  case (PostTreePlaceholderNode q m cs h)
  show ?case
  proof (cases "q = a")
    case True
    with PostTreePlaceholderNode.prems have k: "k = Inr m"
      and "\<forall>y \<in> set cs. a \<notin> set (refs_of y)"
      by (auto simp: key_at_def)
    then have "map (push_child a c) cs = cs"
      by (auto intro!: map_idI push_child_absent)
    with True have "push_child a c (PostTreePlaceholderNode q m cs h)
        = children_push (PostTreePlaceholderNode q m cs h) c"
      by simp
    with k show ?thesis using gains_child.here [of "PostTreePlaceholderNode q m cs h" k c] by simp
  next
    case False
    with PostTreePlaceholderNode.prems have "map_of (concat (map keyed_refs cs)) a = Some k"
      and d: "distinct (concat (map refs_of cs))"
      by (auto simp: key_at_def)
    then obtain as x bs where split: "cs = as @ x # bs" and kx: "key_at x a = Some k"
      and rest: "\<forall>y \<in> set as \<union> set bs. a \<notin> set (refs_of y)"
      using key_at_split by blast
    from d split have "distinct (refs_of x)" by simp
    with PostTreePlaceholderNode.IH [of x] split kx have "gains_child k c x (push_child a c x)"
      by simp
    then have "gains_child k c (PostTreePlaceholderNode q m (as @ x # bs) h)
        (PostTreePlaceholderNode q m (as @ push_child a c x # bs) h)"
      by (rule gains_child.below_placeholder)
    with False split push_child_children [OF split rest, of c] show ?thesis by simp
  qed
qed


section \<open>Invariants of the loops\<close>

lemma locate_loop_invariant:
  assumes "P st"
    and "\<And>s k. P s \<Longrightarrow>
       findIndex (\<lambda>x. Some (status_id x) = in_reply_to_id (status (rootNode s)))
         (unsortedStatuses s) = Some k \<Longrightarrow> P (new_root requestedStatus k s)"
  shows "P (locate_loop requestedStatus st)"
  using assms
proof (induction requestedStatus st rule: locate_loop.induct)
  case (1 requestedStatus st)
  show ?case
  proof (cases "in_reply_to_id requestedStatus = None")
    case True
    with "1.prems"(1) show ?thesis by (simp add: locate_loop.simps)
  next
    case False
    note reply = this
    show ?thesis
    proof (cases "findIndex (\<lambda>s. Some (status_id s) = in_reply_to_id (status (rootNode st)))
                    (unsortedStatuses st)")
      case None
      with reply "1.prems"(1) show ?thesis by (simp add: locate_loop.simps)
    next
      case (Some k)
      from "1.prems"(2) [OF "1.prems"(1) Some] have "P (new_root requestedStatus k st)" .
      from "1.IH" [OF reply Some this "1.prems"(2)] reply Some show ?thesis
        by (simp add: locate_loop.simps [of requestedStatus st])
    qed
  qed
qed

lemma attach_pass_invariant:
  assumes "P st"
    and "\<And>s j p. P s \<Longrightarrow> j < length (unsortedStatuses s) \<Longrightarrow> attach_target s j = Some p \<Longrightarrow>
           P (attach_under p j s)"
  shows "P (fst (attach_pass i st n))"
  using assms(1)
proof (induction i st n rule: attach_pass.induct)
  case (1 i st numAdded)
  show ?case
  proof (cases "i < length (unsortedStatuses st)")
    case False
    with "1.prems" show ?thesis by (simp add: attach_pass.simps)
  next
    case True
    show ?thesis
    proof (cases "in_reply_to_id (unsortedStatuses st ! i)")
      case None
      then have "attach_target st i = Some (ref (rootNode st))"
        by (simp add: attach_target_def)
      from assms(2) [OF "1.prems" True this] "1.IH"(1) [OF True None] True None show ?thesis
        by (simp add: attach_pass.simps [of i])
    next
      case (Some parentId)
      note parent = this
      show ?thesis
      proof (cases "idMap st parentId")
        case None
        with True parent "1.prems" "1.IH"(2) [OF True parent None] show ?thesis
          by (simp add: attach_pass.simps [of i])
      next
        case (Some existingParent)
        with parent have "attach_target st i = Some existingParent"
          by (simp add: attach_target_def)
        from assms(2) [OF "1.prems" True this] "1.IH"(3) [OF True parent Some] True parent Some
        show ?thesis
          by (simp add: attach_pass.simps [of i])
      qed
    qed
  qed
qed

lemma attachStatusesToTree_invariant:
  assumes "P st"
    and "\<And>s j p. P s \<Longrightarrow> j < length (unsortedStatuses s) \<Longrightarrow> attach_target s j = Some p \<Longrightarrow>
           P (attach_under p j s)"
    and "\<And>s. P s \<Longrightarrow> unsortedStatuses s \<noteq> [] \<Longrightarrow> P (attach_missing s)"
  shows "P (attachStatusesToTree st)"
  using assms(1)
proof (induction st rule: attachStatusesToTree.induct)
  case (1 st)
  show ?case
  proof (cases "0 < length (unsortedStatuses st)")
    case False
    with "1.prems" show ?thesis by (simp add: attachStatusesToTree.simps)
  next
    case True
    have pass: "P (fst (attach_pass 0 st 0))"
      using "1.prems" assms(2) by (rule attach_pass_invariant)
    show ?thesis
    proof (cases "length (unsortedStatuses (fst (attach_pass 0 st 0))) = 0")
      case True
      with \<open>0 < length (unsortedStatuses st)\<close> pass show ?thesis
        by (simp add: attachStatusesToTree.simps [of st] Let_def)
    next
      case False
      note nonempty = this
      show ?thesis
      proof (cases "snd (attach_pass 0 st 0) = 0")
        case True
        from nonempty have "unsortedStatuses (fst (attach_pass 0 st 0)) \<noteq> []" by simp
        from assms(3) [OF pass this]
          "1.IH"(1) [OF \<open>0 < length (unsortedStatuses st)\<close> refl nonempty True]
          \<open>0 < length (unsortedStatuses st)\<close> nonempty True
        show ?thesis
          by (simp add: attachStatusesToTree.simps [of st] Let_def)
      next
        case False
        from pass "1.IH"(2) [OF \<open>0 < length (unsortedStatuses st)\<close> refl nonempty False]
          \<open>0 < length (unsortedStatuses st)\<close> nonempty False
        show ?thesis
          by (simp add: attachStatusesToTree.simps [of st] Let_def)
      qed
    qed
  qed
qed


section \<open>The tree under construction\<close>

lemma key_at_Some: "a \<in> set (refs_of t) \<Longrightarrow> \<exists>k. key_at t a = Some k"
proof -
  assume "a \<in> set (refs_of t)"
  then have "a \<in> fst ` set (keyed_refs t)"
    by (simp add: map_fst_keyed_refs [symmetric] del: map_fst_keyed_refs)
  then show ?thesis
    by (metis key_at_def map_of_eq_None_iff not_Some_eq)
qed

lemma push_child_cases:
  assumes "distinct (refs_of t)"
  shows "push_child a c t = t \<or> (\<exists>k. key_at t a = Some k \<and> gains_child k c t (push_child a c t))"
proof (cases "a \<in> set (refs_of t)")
  case False
  then show ?thesis by (simp add: push_child_absent)
next
  case True
  then obtain k where "key_at t a = Some k" using key_at_Some by blast
  with assms show ?thesis using push_child_gains by blast
qed

lemma push_leaf_refs:
  assumes "distinct (refs_of t)" and "\<forall>q \<in> set (refs_of t). q < n"
  shows "distinct (refs_of (push_child a (PostTreeStatusNode n x [] h) t))
    \<and> (\<forall>q \<in> set (refs_of (push_child a (PostTreeStatusNode n x [] h) t)). q < Suc n)"
proof -
  let ?c = "PostTreeStatusNode n x [] h"
  from push_child_cases [OF assms(1), of a ?c] show ?thesis
  proof
    assume "push_child a ?c t = t"
    with assms show ?thesis by (auto simp: less_Suc_eq)
  next
    assume "\<exists>k. key_at t a = Some k \<and> gains_child k ?c t (push_child a ?c t)"
    then obtain k where "gains_child k ?c t (push_child a ?c t)" by blast
    then have m: "mset (refs_of (push_child a ?c t)) = mset (n # refs_of t)"
      by (simp add: gains_child_refs)
    from assms have "distinct (n # refs_of t)" by auto
    with m have "distinct (refs_of (push_child a ?c t))"
      using mset_eq_imp_distinct_iff by blast
    moreover from m have "set (refs_of (push_child a ?c t)) = set (n # refs_of t)"
      by (rule mset_eq_setD)
    ultimately show ?thesis using assms(2) by (auto simp: less_Suc_eq)
  qed
qed

lemma push_leaf_placeholder_count:
  assumes "distinct (refs_of t)"
  shows "placeholder_count (push_child a (PostTreeStatusNode n x [] h) t) = placeholder_count t"
  using push_child_cases [OF assms, of a "PostTreeStatusNode n x [] h"]
  by (auto simp: gains_child_placeholder_count)

lemma push_leaf_statuses:
  assumes "distinct (refs_of t)"
  shows "mset (statuses_of (push_child a (PostTreeStatusNode n x [] h) t))
     \<subseteq># add_mset x (mset (statuses_of t))"
  using push_child_cases [OF assms, of a "PostTreeStatusNode n x [] h"]
  by (auto simp: gains_child_statuses)


lemma tree_ok_new_root: "tree_ok st \<Longrightarrow> tree_ok (new_root requestedStatus k st)"
  by (auto simp: tree_ok_def new_root_def Let_def less_Suc_eq)

lemma tree_ok_attach_under: "tree_ok st \<Longrightarrow> tree_ok (attach_under p i st)"
  using push_leaf_refs [of "rootNode st" "next_ref st" p "unsortedStatuses st ! i" False]
    push_leaf_placeholder_count [of "rootNode st" p "next_ref st" "unsortedStatuses st ! i" False]
  by (simp add: tree_ok_def attach_under_def push_to_def Let_def)

lemma tree_ok_attach_missing: "tree_ok st \<Longrightarrow> tree_ok (attach_missing st)"
  using push_leaf_refs [of "rootNode st" "next_ref st" "ref (rootNode st)"
      "last (unsortedStatuses st)" False]
    push_leaf_placeholder_count [of "rootNode st" "ref (rootNode st)" "next_ref st"
      "last (unsortedStatuses st)" False]
  by (auto simp: tree_ok_def attach_missing_def push_to_def Let_def less_Suc_eq)

lemma tree_ok_locateRootNode: "tree_ok (locateRootNode requestedStatus m pool)"
  unfolding locateRootNode_def
proof (rule locate_loop_invariant [where P = tree_ok])
  show "tree_ok \<lparr>rootNode = PostTreeStatusNode 0 requestedStatus [] True, detached = [],
      idMap = m(status_id requestedStatus \<mapsto> 0), unsortedStatuses = pool, next_ref = 1\<rparr>"
    by (simp add: tree_ok_def)
qed (rule tree_ok_new_root)

lemma tree_ok_build_final: "tree_ok (build_final requestedStatus ancs descs)"
  unfolding build_final_def
  by (rule attachStatusesToTree_invariant [where P = tree_ok])
     (simp_all add: tree_ok_locateRootNode tree_ok_attach_under tree_ok_attach_missing)


section \<open>The statuses of the tree and of the pool\<close>

lemma distinct_mset_subseteq:
  assumes "mset xs \<subseteq># mset ys" and "distinct ys"
  shows "distinct xs"
proof -
  have "count (mset xs) a \<le> 1" for a
  proof -
    have "count (mset xs) a \<le> count (mset ys) a"
      using assms(1) by (rule mset_subset_eq_count)
    also have "\<dots> \<le> 1"
      using assms(2) by (simp add: distinct_count_atmost_1)
    finally show ?thesis .
  qed
  then show ?thesis
    by (metis count_mset_0_iff distinct_count_atmost_1 le_antisym not_less_eq_eq less_one
        linorder_not_le)
qed

lemma mset_splice1: "k < length xs \<Longrightarrow> add_mset (xs ! k) (mset (splice1 k xs)) = mset xs"
proof -
  assume "k < length xs"
  then have "xs = take k xs @ xs ! k # drop (Suc k) xs" by (rule id_take_nth_drop)
  then have "mset xs = mset (take k xs @ xs ! k # drop (Suc k) xs)" by simp
  then show ?thesis by (simp add: splice1_def)
qed

lemma mset_butlast: "xs \<noteq> [] \<Longrightarrow> add_mset (last xs) (mset (butlast xs)) = mset xs"
proof -
  assume "xs \<noteq> []"
  then have "butlast xs @ [last xs] = xs" by simp
  then have "mset (butlast xs @ [last xs]) = mset xs" by simp
  then show ?thesis by simp
qed

lemma statuses_within_new_root:
  assumes "statuses_within M st" and "k < length (unsortedStatuses st)"
  shows "statuses_within M (new_root requestedStatus k st)"
proof -
  have "mset (statuses_of (rootNode (new_root requestedStatus k st)))
        + mset (unsortedStatuses (new_root requestedStatus k st))
      = mset (statuses_of (rootNode st))
        + add_mset (unsortedStatuses st ! k) (mset (splice1 k (unsortedStatuses st)))"
    by (simp add: new_root_def Let_def)
  also have "\<dots> = mset (statuses_of (rootNode st)) + mset (unsortedStatuses st)"
    using assms(2) by (simp add: mset_splice1)
  finally show ?thesis
    using assms(1) by (simp add: statuses_within_def tree_ok_new_root)
qed

lemma statuses_within_attach_under:
  assumes "statuses_within M st" and "i < length (unsortedStatuses st)"
  shows "statuses_within M (attach_under p i st)"
proof -
  let ?x = "unsortedStatuses st ! i"
  from assms(1) have ok: "tree_ok st" by (simp add: statuses_within_def)
  then have "distinct (refs_of (rootNode st))" by (simp add: tree_ok_def)
  then have "mset (statuses_of (push_child p (PostTreeStatusNode (next_ref st) ?x [] False)
        (rootNode st))) \<subseteq># add_mset ?x (mset (statuses_of (rootNode st)))"
    by (rule push_leaf_statuses)
  then have "mset (statuses_of (rootNode (attach_under p i st)))
        + mset (unsortedStatuses (attach_under p i st))
      \<subseteq># add_mset ?x (mset (statuses_of (rootNode st))) + mset (splice1 i (unsortedStatuses st))"
    by (simp add: attach_under_def push_to_def Let_def)
  also have "\<dots> = mset (statuses_of (rootNode st)) + mset (unsortedStatuses st)"
    using mset_splice1 [OF assms(2)] by (metis union_mset_add_mset_left union_mset_add_mset_right)
  finally show ?thesis
    using assms(1) ok by (auto simp: statuses_within_def tree_ok_attach_under)
qed

lemma statuses_within_attach_missing:
  assumes "statuses_within M st" and "unsortedStatuses st \<noteq> []"
  shows "statuses_within M (attach_missing st)"
proof -
  let ?x = "last (unsortedStatuses st)"
  from assms(1) have ok: "tree_ok st" by (simp add: statuses_within_def)
  then have "distinct (refs_of (rootNode st))" by (simp add: tree_ok_def)
  then have "mset (statuses_of (push_child (ref (rootNode st))
        (PostTreeStatusNode (next_ref st) ?x [] False) (rootNode st)))
      \<subseteq># add_mset ?x (mset (statuses_of (rootNode st)))"
    by (rule push_leaf_statuses)
  then have "mset (statuses_of (rootNode (attach_missing st)))
        + mset (unsortedStatuses (attach_missing st))
      \<subseteq># add_mset ?x (mset (statuses_of (rootNode st))) + mset (butlast (unsortedStatuses st))"
    by (simp add: attach_missing_def push_to_def Let_def)
  also have "\<dots> = mset (statuses_of (rootNode st)) + mset (unsortedStatuses st)"
    using mset_butlast [OF assms(2)] by (metis union_mset_add_mset_left union_mset_add_mset_right)
  finally show ?thesis
    using assms(1) ok by (auto simp: statuses_within_def tree_ok_attach_missing)
qed

lemma statuses_within_build_final:
  "statuses_within (mset (requestedStatus # ancs @ descs)) (build_final requestedStatus ancs descs)"
  unfolding build_final_def
proof (rule attachStatusesToTree_invariant
    [where P = "statuses_within (mset (requestedStatus # ancs @ descs))"])
  show "statuses_within (mset (requestedStatus # ancs @ descs))
      (locateRootNode requestedStatus Map.empty (ancs @ descs))"
    unfolding locateRootNode_def
  proof (rule locate_loop_invariant
      [where P = "statuses_within (mset (requestedStatus # ancs @ descs))"])
    show "statuses_within (mset (requestedStatus # ancs @ descs))
        \<lparr>rootNode = PostTreeStatusNode 0 requestedStatus [] True, detached = [],
         idMap = [status_id requestedStatus \<mapsto> 0], unsortedStatuses = ancs @ descs,
         next_ref = 1\<rparr>"
      by (simp add: statuses_within_def tree_ok_def)
  next
    fix s k
    assume "statuses_within (mset (requestedStatus # ancs @ descs)) s"
      and "findIndex (\<lambda>x. Some (status_id x) = in_reply_to_id (status (rootNode s)))
             (unsortedStatuses s) = Some k"
    then show "statuses_within (mset (requestedStatus # ancs @ descs))
        (new_root requestedStatus k s)"
      by (auto intro: statuses_within_new_root dest: findIndex_less)
  qed
qed (auto intro: statuses_within_attach_under statuses_within_attach_missing)

section \<open>The walk of tryAttachTo over a tree with distinct identifiers\<close>

lemma ids_of_simps [simp]:
  "ids_of (PostTreeStatusNode q s cs h) = status_id s # concat (map ids_of cs)"
  "ids_of (PostTreePlaceholderNode q m cs h) = concat (map ids_of cs)"
  by (simp_all add: ids_of_def [abs_def] map_concat comp_def)

lemma walk_ids_subset: "set (walk_ids tgt t) \<subseteq> set (ids_of t)"
  by (induction t) auto

lemma tryAttachTo_distinct:
  "set (fst vs) \<inter> set (ids_of t) = {} \<Longrightarrow> distinct (ids_of t) \<Longrightarrow>
     tryAttachTo tgt c t vs
       = Inr (attach_below tgt c t, fst vs @ walk_ids tgt t,
              snd vs \<or> tgt \<in> Some ` set (ids_of t))"
  and "set (fst vs) \<inter> set (concat (map ids_of cs)) = {} \<Longrightarrow> distinct (concat (map ids_of cs)) \<Longrightarrow>
     tryAttachToEach tgt c cs vs
       = Inr (map (attach_below tgt c) cs, fst vs @ concat (map (walk_ids tgt) cs),
              snd vs \<or> tgt \<in> Some ` set (concat (map ids_of cs)))"
proof (induction tgt c t vs and tgt c cs vs rule: tryAttachTo_tryAttachToEach.induct)
  case (1 targetId new q s cs h visited success)
  then show ?case by auto
next
  case (2 targetId new q m cs h visited success)
  then show ?case by auto
next
  case (3 targetId new vs)
  then show ?case by simp
next
  case (4 targetId new child rest vs)
  have a: "set (fst vs) \<inter> set (ids_of child) = {}" and b: "distinct (ids_of child)"
    using "4.prems" by auto
  note first = "4.IH"(1) [OF a b]
  have c: "set (fst vs @ walk_ids targetId child) \<inter> set (concat (map ids_of rest)) = {}"
    using "4.prems" walk_ids_subset [of targetId child] by auto
  have d: "distinct (concat (map ids_of rest))" using "4.prems" by simp
  from "4.IH"(2) [OF first refl _ d] c first show ?case
    by auto
qed


lemma attach_below_absent: "tgt \<notin> Some ` set (ids_of t) \<Longrightarrow> attach_below tgt c t = t"
  by (induction t) (auto intro: map_idI)

lemma ids_split:
  "p \<in> set (concat (map ids_of cs)) \<Longrightarrow> distinct (concat (map ids_of cs)) \<Longrightarrow>
   \<exists>as x bs. cs = as @ x # bs \<and> p \<in> set (ids_of x)
     \<and> (\<forall>y \<in> set as \<union> set bs. p \<notin> set (ids_of y))"
proof (induction cs)
  case Nil
  then show ?case by simp
next
  case (Cons y ys)
  show ?case
  proof (cases "p \<in> set (ids_of y)")
    case True
    with Cons.prems(2) have "\<forall>z \<in> set ys. p \<notin> set (ids_of z)" by auto
    with True have "y # ys = [] @ y # ys \<and> p \<in> set (ids_of y)
        \<and> (\<forall>z \<in> set [] \<union> set ys. p \<notin> set (ids_of z))"
      by simp
    then show ?thesis by blast
  next
    case False
    with Cons.prems have "p \<in> set (concat (map ids_of ys))" "distinct (concat (map ids_of ys))"
      by auto
    then obtain as x bs where
      "ys = as @ x # bs" "p \<in> set (ids_of x)" "\<forall>z \<in> set as \<union> set bs. p \<notin> set (ids_of z)"
      using Cons.IH by blast
    with False have "y # ys = (y # as) @ x # bs \<and> p \<in> set (ids_of x)
        \<and> (\<forall>z \<in> set (y # as) \<union> set bs. p \<notin> set (ids_of z))"
      by simp
    then show ?thesis by blast
  qed
qed

lemma attach_below_children:
  assumes "cs = as @ x # bs" and "\<forall>y \<in> set as \<union> set bs. p \<notin> set (ids_of y)"
  shows "map (attach_below (Some p) c) cs = as @ attach_below (Some p) c x # bs"
proof -
  have "map (attach_below (Some p) c) as = as" "map (attach_below (Some p) c) bs = bs"
    using assms(2) by (auto intro!: map_idI attach_below_absent)
  with assms(1) show ?thesis by simp
qed

lemma attach_below_gains:
  "distinct (ids_of t) \<Longrightarrow> p \<in> set (ids_of t) \<Longrightarrow>
   gains_child (Inl p) c t (attach_below (Some p) c t)"
proof (induction t)
  case (PostTreeStatusNode q s cs h)
  show ?case
  proof (cases "status_id s = p")
    case True
    then have "attach_below (Some p) c (PostTreeStatusNode q s cs h)
        = children_push (PostTreeStatusNode q s cs h) c"
      by simp
    with True show ?thesis
      using gains_child.here [of "PostTreeStatusNode q s cs h" "Inl p" c] by simp
  next
    case False
    with PostTreeStatusNode.prems have "p \<in> set (concat (map ids_of cs))"
      and d: "distinct (concat (map ids_of cs))"
      by auto
    then obtain as x bs where split: "cs = as @ x # bs" and px: "p \<in> set (ids_of x)"
      and rest: "\<forall>y \<in> set as \<union> set bs. p \<notin> set (ids_of y)"
      using ids_split by blast
    from d split have "distinct (ids_of x)" by simp
    with PostTreeStatusNode.IH [of x] split px
    have "gains_child (Inl p) c x (attach_below (Some p) c x)" by simp
    then have "gains_child (Inl p) c (PostTreeStatusNode q s (as @ x # bs) h)
        (PostTreeStatusNode q s (as @ attach_below (Some p) c x # bs) h)"
      by (rule gains_child.below_status)
    with False split attach_below_children [OF split rest, of c] show ?thesis by simp
  qed
next
  case (PostTreePlaceholderNode q m cs h)
  then have "p \<in> set (concat (map ids_of cs))" and d: "distinct (concat (map ids_of cs))"
    by auto
  then obtain as x bs where split: "cs = as @ x # bs" and px: "p \<in> set (ids_of x)"
    and rest: "\<forall>y \<in> set as \<union> set bs. p \<notin> set (ids_of y)"
    using ids_split by blast
  from d split have "distinct (ids_of x)" by simp
  with PostTreePlaceholderNode.IH [of x] split px
  have "gains_child (Inl p) c x (attach_below (Some p) c x)" by simp
  then have "gains_child (Inl p) c (PostTreePlaceholderNode q m (as @ x # bs) h)
      (PostTreePlaceholderNode q m (as @ attach_below (Some p) c x # bs) h)"
    by (rule gains_child.below_placeholder)
  with split attach_below_children [OF split rest, of c] show ?case by simp
qed

lemma patchNewReply_distinct:
  assumes "distinct (ids_of t)"
  shows "patchNewReply r t newComment
    = Inr (if in_reply_to_id newComment \<in> Some ` set (ids_of t)
           then attach_below (in_reply_to_id newComment) (PostTreeStatusNode r newComment [] True) t
           else children_push t (PostTreeStatusNode r newComment [] True))"
  using tryAttachTo_distinct(1) [of "([], False)" t "in_reply_to_id newComment"
      "PostTreeStatusNode r newComment [] True"] assms
  by (simp add: patchNewReply_def attach_below_absent)

section \<open>The walk to the root on a permuted pool\<close>

lemma findIndex_None_iff: "findIndex p xs = None \<longleftrightarrow> (\<forall>x \<in> set xs. \<not> p x)"
  by (induction xs) (auto split: option.splits)

lemma findIndex_Some: "findIndex p xs = Some k \<Longrightarrow> k < length xs \<and> p (xs ! k)"
  by (induction xs arbitrary: k) (auto split: if_splits option.splits)

lemma set_splice1: "k < length xs \<Longrightarrow> set (splice1 k xs) \<subseteq> set xs"
  by (auto simp: splice1_def dest: in_set_takeD in_set_dropD)

lemma distinct_map_splice1:
  "distinct (map f xs) \<Longrightarrow> distinct (map f (splice1 k xs))"
  by (simp add: splice1_def distinct_map set_take_disj_set_drop_if_distinct inj_on_def
      take_map [symmetric] drop_map [symmetric])

lemma findIndex_unique:
  assumes "findIndex p xs = Some k" and "findIndex p ys = Some j" and "mset ys = mset xs"
    and "distinct (map f xs)" and "\<And>x y. p x \<Longrightarrow> p y \<Longrightarrow> f x = f y"
  shows "ys ! j = xs ! k"
proof -
  from findIndex_Some [OF assms(1)] have x: "xs ! k \<in> set xs" "p (xs ! k)" by auto
  from findIndex_Some [OF assms(2)] have "ys ! j \<in> set ys" "p (ys ! j)" by auto
  with assms(3) have y: "ys ! j \<in> set xs" "p (ys ! j)" by (auto dest: mset_eq_setD)
  from y(2) x(2) have "f (ys ! j) = f (xs ! k)" by (rule assms(5))
  with assms(4) x(1) y(1) show ?thesis
    by (auto simp: distinct_map dest: inj_onD)
qed

lemma mset_splice1_eq:
  assumes "k < length xs" and "j < length ys" and "mset ys = mset xs" and "ys ! j = xs ! k"
  shows "mset (splice1 j ys) = mset (splice1 k xs)"
proof -
  have "add_mset (ys ! j) (mset (splice1 j ys)) = add_mset (xs ! k) (mset (splice1 k xs))"
    using mset_splice1 [OF assms(1)] mset_splice1 [OF assms(2)] assms(3) by simp
  with assms(4) show ?thesis by simp
qed

lemma locate_loop_permuted:
  assumes "mset ys = mset (unsortedStatuses st)"
    and "distinct (map status_id (unsortedStatuses st))"
  shows "\<exists>zs. locate_loop requestedStatus (st\<lparr>unsortedStatuses := ys\<rparr>)
            = (locate_loop requestedStatus st)\<lparr>unsortedStatuses := zs\<rparr>
          \<and> mset zs = mset (unsortedStatuses (locate_loop requestedStatus st))"
  using assms
proof (induction requestedStatus st arbitrary: ys rule: locate_loop.induct)
  case (1 requestedStatus st)
  let ?p = "\<lambda>s. Some (status_id s) = in_reply_to_id (status (rootNode st))"
  let ?st' = "st\<lparr>unsortedStatuses := ys\<rparr>"
  show ?case
  proof (cases "in_reply_to_id requestedStatus = None")
    case True
    with "1.prems"(1) show ?thesis
      by (intro exI [of _ ys]) (simp add: locate_loop.simps)
  next
    case False
    note reply = this
    show ?thesis
    proof (cases "findIndex ?p (unsortedStatuses st)")
      case None
      then have "\<forall>x \<in> set (unsortedStatuses st). \<not> ?p x" by (simp add: findIndex_None_iff)
      with "1.prems"(1) have "\<forall>x \<in> set ys. \<not> ?p x" by (auto dest: mset_eq_setD)
      then have "findIndex ?p ys = None" by (simp add: findIndex_None_iff)
      with None reply "1.prems"(1) show ?thesis
        by (intro exI [of _ ys])
           (simp add: locate_loop.simps [of requestedStatus st]
              locate_loop.simps [of requestedStatus ?st'])
    next
      case (Some k)
      from findIndex_Some [OF Some] have k: "k < length (unsortedStatuses st)"
        and pk: "?p (unsortedStatuses st ! k)" by auto
      from k have "unsortedStatuses st ! k \<in> set (unsortedStatuses st)" by simp
      also have "set (unsortedStatuses st) = set ys"
        using "1.prems"(1) by (rule mset_eq_setD [symmetric])
      finally have "\<not> (\<forall>x \<in> set ys. \<not> ?p x)" using pk by blast
      then have "findIndex ?p ys \<noteq> None" by (simp add: findIndex_None_iff)
      then obtain j where j: "findIndex ?p ys = Some j" by blast
      from findIndex_Some [OF j] have jlen: "j < length ys" by simp
      have same: "ys ! j = unsortedStatuses st ! k"
        using Some j "1.prems"(1) "1.prems"(2)
      proof (rule findIndex_unique)
        fix x y
        assume "?p x" and "?p y"
        then have "Some (status_id x) = Some (status_id y)" by simp
        then show "status_id x = status_id y" by simp
      qed
      have perm: "mset (splice1 j ys) = mset (unsortedStatuses (new_root requestedStatus k st))"
        using mset_splice1_eq [OF k jlen "1.prems"(1) same] by simp
      have dist: "distinct (map status_id (unsortedStatuses (new_root requestedStatus k st)))"
        using "1.prems"(2) by (simp add: distinct_map_splice1)
      have step: "new_root requestedStatus j ?st'
          = (new_root requestedStatus k st)\<lparr>unsortedStatuses := splice1 j ys\<rparr>"
        using same by (simp add: new_root_def Let_def)
      from "1.IH" [OF reply Some perm dist] obtain zs where
        "locate_loop requestedStatus
            ((new_root requestedStatus k st)\<lparr>unsortedStatuses := splice1 j ys\<rparr>)
          = (locate_loop requestedStatus (new_root requestedStatus k st))\<lparr>unsortedStatuses := zs\<rparr>"
        "mset zs = mset (unsortedStatuses (locate_loop requestedStatus (new_root requestedStatus k st)))"
        by blast
      with step reply Some j show ?thesis
        by (intro exI [of _ zs])
           (simp add: locate_loop.simps [of requestedStatus st]
              locate_loop.simps [of requestedStatus ?st'])
    qed
  qed
qed

section \<open>The edges of the tree when no parent is missing\<close>

lemma key_at_root: "key_at t (ref t) = Some (node_key t)"
  by (cases t) (simp_all add: key_at_def)

lemma gains_child_keyed_refs:
  "gains_child k c t t' \<Longrightarrow> mset (keyed_refs t') = mset (keyed_refs t) + mset (keyed_refs c)"
  by (induction rule: gains_child.induct) auto

lemma key_at_iff:
  assumes "distinct (refs_of t)"
  shows "key_at t a = Some v \<longleftrightarrow> (a, v) \<in> set (keyed_refs t)"
proof -
  from assms have "distinct (map fst (keyed_refs t))" by (simp add: map_fst_keyed_refs)
  then show ?thesis by (simp add: key_at_def)
qed

lemma gains_child_key_at:
  assumes "gains_child k c t t'" and "distinct (refs_of t)" and "distinct (refs_of t')"
    and "(a, v) \<in> set (keyed_refs t) \<union> set (keyed_refs c)"
  shows "key_at t' a = Some v"
proof -
  from gains_child_keyed_refs [OF assms(1)]
  have "set (keyed_refs t') = set (keyed_refs t) \<union> set (keyed_refs c)"
    by (metis set_mset_mset set_mset_union)
  with assms(4) have "(a, v) \<in> set (keyed_refs t')" by simp
  with assms(3) show ?thesis by (simp add: key_at_iff)
qed

lemma set_splice1_insert:
  "i < length xs \<Longrightarrow> insert (xs ! i) (set (splice1 i xs)) = set xs"
proof -
  assume "i < length xs"
  then have "set_mset (add_mset (xs ! i) (mset (splice1 i xs))) = set_mset (mset xs)"
    by (simp only: mset_splice1)
  then show ?thesis by simp
qed

lemma edges_inv_attach_under:
  assumes inv: "edges_inv rid rk E st" and i: "i < length (unsortedStatuses st)"
    and target: "attach_target st i = Some p"
  shows "edges_inv rid rk E (attach_under p i st)"
proof -
  let ?x = "unsortedStatuses st ! i"
  let ?c = "PostTreeStatusNode (next_ref st) ?x [] False"
  let ?t = "rootNode st"
  let ?t' = "push_child p ?c ?t"
  from inv have ok: "tree_ok st" and rk: "node_key ?t = rk"
    and rid: "rid \<notin> status_id ` set (unsortedStatuses st)"
    and index: "\<And>k a. idMap st k = Some a \<Longrightarrow> key_at ?t a = Some (index_key rid rk k)"
    and E: "set (edges ?t) \<union> expected_edge rid rk ` set (unsortedStatuses st) = E"
    by (auto simp: edges_inv_def)
  from ok have d: "distinct (refs_of ?t)" by (simp add: tree_ok_def)
  have root': "rootNode (attach_under p i st) = ?t'"
    by (simp add: attach_under_def push_to_def Let_def)
  have ok': "tree_ok (attach_under p i st)" using ok by (rule tree_ok_attach_under)
  then have d': "distinct (refs_of ?t')" using root' by (simp add: tree_ok_def)
  have key_p: "key_at ?t p = Some (fst (expected_edge rid rk ?x))"
  proof (cases "in_reply_to_id ?x")
    case None
    with target have "p = ref ?t" by (simp add: attach_target_def)
    with None rk show ?thesis by (simp add: key_at_root expected_edge_def)
  next
    case (Some k)
    with target have "idMap st k = Some p" by (simp add: attach_target_def)
    from index [OF this] Some show ?thesis by (simp add: expected_edge_def)
  qed
  from push_child_gains [OF d key_p]
  have g: "gains_child (fst (expected_edge rid rk ?x)) ?c ?t ?t'" .
  have key': "node_key ?t' = rk" using gains_child_key [OF g] rk by simp
  from i have xin: "?x \<in> set (unsortedStatuses st)" by simp
  with rid have xid: "status_id ?x \<noteq> rid" by auto
  have index': "key_at ?t' a = Some (index_key rid rk k)"
    if "idMap (attach_under p i st) k = Some a" for k a
  proof (cases "k = status_id ?x")
    case True
    with that have "a = next_ref st" by (simp add: attach_under_def push_to_def Let_def)
    moreover have "key_at ?t' (next_ref st) = Some (Inl (status_id ?x))"
      using g d d' by (rule gains_child_key_at) simp
    ultimately show ?thesis using True xid by (simp add: index_key_def)
  next
    case False
    with that have "idMap st k = Some a" by (simp add: attach_under_def push_to_def Let_def)
    from index [OF this] have "(a, index_key rid rk k) \<in> set (keyed_refs ?t)"
      using d by (simp add: key_at_iff)
    then have "(a, index_key rid rk k) \<in> set (keyed_refs ?t) \<union> set (keyed_refs ?c)" by simp
    with g d d' show ?thesis by (rule gains_child_key_at)
  qed
  have "set (edges ?t') = set (edges ?t) \<union> {expected_edge rid rk ?x}"
    using gains_child_edges [OF g] by (simp add: expected_edge_def)
  then have "set (edges ?t') \<union> expected_edge rid rk ` set (splice1 i (unsortedStatuses st))
      = set (edges ?t) \<union> expected_edge rid rk ` insert ?x (set (splice1 i (unsortedStatuses st)))"
    by auto
  also have "\<dots> = E" using set_splice1_insert [OF i] E by simp
  finally have E': "set (edges ?t') \<union> expected_edge rid rk ` set (splice1 i (unsortedStatuses st)) = E" .
  have rid': "rid \<notin> status_id ` set (splice1 i (unsortedStatuses st))"
    using rid set_splice1 [OF i] by auto
  from ok' key' rid' index' E' root' show ?thesis
    by (simp add: edges_inv_def)
qed

lemma detached_attach_under: "detached (attach_under p i st) = [] \<longleftrightarrow> detached st = []"
  by (simp add: attach_under_def push_to_def Let_def)

lemma detached_attach_missing: "detached (attach_missing st) \<noteq> []"
  by (simp add: attach_missing_def push_to_def Let_def)

lemma edges_inv_final:
  assumes "edges_inv rid rk E st" and "detached (attachStatusesToTree st) = []"
  shows "set (edges (rootNode (attachStatusesToTree st))) = E"
proof -
  have "edges_inv rid rk E (attachStatusesToTree st) \<or> detached (attachStatusesToTree st) \<noteq> []"
  proof (rule attachStatusesToTree_invariant
      [where P = "\<lambda>s. edges_inv rid rk E s \<or> detached s \<noteq> []"])
    show "edges_inv rid rk E st \<or> detached st \<noteq> []" using assms(1) by simp
  next
    fix s j p
    assume "edges_inv rid rk E s \<or> detached s \<noteq> []" and "j < length (unsortedStatuses s)"
      and "attach_target s j = Some p"
    then show "edges_inv rid rk E (attach_under p j s) \<or> detached (attach_under p j s) \<noteq> []"
      using edges_inv_attach_under [of rid rk E s j p] by (auto simp: detached_attach_under)
  next
    fix s
    show "edges_inv rid rk E (attach_missing s) \<or> detached (attach_missing s) \<noteq> []"
      by (simp add: detached_attach_missing)
  qed
  with assms(2) have "edges_inv rid rk E (attachStatusesToTree st)" by simp
  then show ?thesis by (simp add: edges_inv_def attachStatusesToTree_empty)
qed


lemma located_locateRootNode:
  "located (status_id requestedStatus) (set pool) (locateRootNode requestedStatus Map.empty pool)"
  unfolding locateRootNode_def
proof (rule locate_loop_invariant [where P = "located (status_id requestedStatus) (set pool)"])
  show "located (status_id requestedStatus) (set pool)
      \<lparr>rootNode = PostTreeStatusNode 0 requestedStatus [] True, detached = [],
       idMap = [status_id requestedStatus \<mapsto> 0], unsortedStatuses = pool, next_ref = 1\<rparr>"
    by (simp add: located_def tree_ok_def)
next
  fix s k
  assume inv: "located (status_id requestedStatus) (set pool) s"
    and "findIndex (\<lambda>x. Some (status_id x) = in_reply_to_id (status (rootNode s)))
           (unsortedStatuses s) = Some k"
  then have "k < length (unsortedStatuses s)" by (auto dest: findIndex_less)
  then have "set (splice1 k (unsortedStatuses s)) \<subseteq> set (unsortedStatuses s)"
    by (rule set_splice1)
  with inv show "located (status_id requestedStatus) (set pool) (new_root requestedStatus k s)"
    by (auto simp: located_def tree_ok_new_root) (simp add: new_root_def Let_def)
qed

lemma located_edges_inv:
  assumes "located rid S st" and "rid \<notin> status_id ` S"
  shows "edges_inv rid (node_key (rootNode st))
     (set (edges (rootNode st))
        \<union> expected_edge rid (node_key (rootNode st)) ` set (unsortedStatuses st)) st"
  using assms by (auto simp: located_def edges_inv_def key_at_root index_key_def)

section \<open>A build in which every pass attaches a status\<close>











section \<open>C1: the branch for a missing parent\<close>

text \<open>
  C1. Requested post \<open>P\<close> (no parent), no ancestors, one descendant \<open>X\<close> whose parent \<open>Z\<close>
  was not fetched. The first pass attaches nothing, so \<open>X\<close> is popped, a placeholder with
  the message \<^verbatim>\<open>Missing post id Z\<close> holding the node of \<open>X\<close> is created, and the index maps
  \<open>X\<close> to that placeholder (reference 2). But the node pushed onto the root's children
  (line 268) is the status node of \<open>X\<close>: the placeholder is no child of the root, and the
  returned tree holds no placeholder at all.
\<close>

theorem missing_parent_placeholder_not_attached:
  "buildThreadTree (post ''P'' None) [] [post ''X'' (Some ''Z'')]
     = PostTreeStatusNode 0 (post ''P'' None)
         [PostTreeStatusNode 1 (post ''X'' (Some ''Z'')) [] False] True
   \<and> detached (build_final (post ''P'' None) [] [post ''X'' (Some ''Z'')])
     = [PostTreePlaceholderNode 2 ''Missing post id Z''
          [PostTreeStatusNode 1 (post ''X'' (Some ''Z'')) [] False] False]
   \<and> idMap (build_final (post ''P'' None) [] [post ''X'' (Some ''Z'')]) ''X'' = Some 2
   \<and> placeholder_count (buildThreadTree (post ''P'' None) [] [post ''X'' (Some ''Z'')]) = 0"
  by (simp add: build_eval)

text \<open>
  The same slip loses replies. Requested post \<open>P\<close> replies to \<open>Q\<close>, the ancestors are \<open>R\<close> and
  \<open>Q\<close>, the descendants are \<open>T\<close> (a reply to \<open>S\<close>) and \<open>S\<close> (a reply to \<open>Q\<close>). The index holds
  the root under the identifier of \<open>P\<close> and nothing for \<open>Q\<close>, so \<open>S\<close> is popped; \<open>T\<close> is then
  pushed onto the placeholder made for \<open>S\<close>, and is not in the returned tree.
\<close>

lemma reply_to_popped_status_not_in_tree:
  "ids_of (buildThreadTree (post ''P'' (Some ''Q'')) [post ''R'' None, post ''Q'' (Some ''R'')]
       [post ''T'' (Some ''S''), post ''S'' (Some ''Q'')])
     = [''R'', ''Q'', ''P'', ''S'']
   \<and> map ids_of (detached (build_final (post ''P'' (Some ''Q''))
         [post ''R'' None, post ''Q'' (Some ''R'')]
         [post ''T'' (Some ''S''), post ''S'' (Some ''Q'')]))
     = [[''S'', ''T'']]"
  by (simp add: build_eval)

section \<open>C2: every parent present\<close>




text \<open>
  The condition on the parent of the requested status cannot be left out. Requested post
  \<open>P\<close> replies to \<open>Q\<close>, and \<open>Q\<close> (a reply to \<open>P\<close>), \<open>D\<close> (a reply to \<open>C\<close>) and \<open>C\<close> (a reply to
  \<open>Q\<close>) are the pool: the other two conditions hold, \<open>Q\<close> becomes the root without being
  indexed, \<open>C\<close> is popped, and \<open>D\<close> is pushed onto the placeholder made for \<open>C\<close>.
\<close>

lemma fetched_parent_loses_status:
  "every_parent_present (post ''P'' (Some ''Q''))
     ([post ''Q'' (Some ''P'')] @ [post ''D'' (Some ''C''), post ''C'' (Some ''Q'')])
   \<and> every_post_descends (post ''P'' (Some ''Q''))
     ([post ''Q'' (Some ''P'')] @ [post ''D'' (Some ''C''), post ''C'' (Some ''Q'')])
   \<and> ids_of (buildThreadTree (post ''P'' (Some ''Q'')) [post ''Q'' (Some ''P'')]
        [post ''D'' (Some ''C''), post ''C'' (Some ''Q'')])
     = [''Q'', ''P'', ''C'']"
  by (simp add: every_parent_present_def every_post_descends_def build_eval)

section \<open>C3: a cyclic chain of parents\<close>

text \<open>
  C3, as stated, fails. Requested post \<open>A\<close> replies to \<open>B\<close>, and the only ancestor \<open>B\<close>
  replies to \<open>A\<close>: the chain upward from \<open>A\<close> is the cycle A, B, A. The walk takes \<open>B\<close> out
  of the pool and makes it the root; the next search (for \<open>A\<close>) finds nothing in the empty
  pool and the loop ends. \<^verbatim>\<open>fetchPostInfoTree\<close> returns the tree with root \<open>B\<close> and child \<open>A\<close>;
  nothing is thrown.
\<close>

theorem cyclic_chain_returns_tree:
  "fetchPostInfoTree True
     \<lparr>getStatus = (\<lambda>i. Inr (post ''A'' (Some ''B''))),
      getStatusContext =
        (\<lambda>i. Inr (Some \<lparr>ancestors = [post ''B'' (Some ''A'')], descendants = []\<rparr>))\<rparr>
     ''A'' None None 0
   = Inr (PostTreeStatusNode 1 (post ''B'' (Some ''A''))
            [PostTreeStatusNode 0 (post ''A'' (Some ''B'')) [] True] False)"
  by (simp add: fetch_eval build_eval)

text \<open>
  C3, amended. The full build has no check for an identifier visited twice and throws
  nothing of its own: when the requested status was fetched, \<^verbatim>\<open>fetchPostInfoTree\<close> returns
  a tree whatever the context is. The walk to the root ends on every input all the same,
  because every round moves the status it found out of the pool into the chain: the
  nodes of the chain and the statuses left in the pool are together one more than the pool
  had.
\<close>

theorem full_build_returns_without_cycle_check:
  "getStatus cl postId = Inr requestedStatus \<Longrightarrow>
   fetchPostInfoTree True cl postId None previousTree r
     = Inr (fetchContextTree cl postId requestedStatus)
   \<and> node_count (rootNode (locateRootNode requestedStatus m pool))
       + length (unsortedStatuses (locateRootNode requestedStatus m pool)) = Suc (length pool)"
  by (simp add: fetchPostInfoTree_def locateRootNode_def locate_loop_count split: option.splits)

theorem full_build_returns_without_cycle_check_witness:
  "fetchPostInfoTree True
     \<lparr>getStatus = (\<lambda>i. Inr (post ''A'' (Some ''B''))),
      getStatusContext =
        (\<lambda>i. Inr (Some \<lparr>ancestors = [post ''B'' (Some ''A'')], descendants = []\<rparr>))\<rparr>
     ''A'' None None 0
     = Inr (fetchContextTree
         \<lparr>getStatus = (\<lambda>i. Inr (post ''A'' (Some ''B''))),
          getStatusContext =
            (\<lambda>i. Inr (Some \<lparr>ancestors = [post ''B'' (Some ''A'')], descendants = []\<rparr>))\<rparr>
         ''A'' (post ''A'' (Some ''B'')))
   \<and> node_count (rootNode (locateRootNode (post ''A'' (Some ''B'')) Map.empty
                              [post ''B'' (Some ''A'')]))
       + length (unsortedStatuses (locateRootNode (post ''A'' (Some ''B'')) Map.empty
                                     [post ''B'' (Some ''A'')]))
      = Suc (length [post ''B'' (Some ''A'')])"
  using full_build_returns_without_cycle_check
    [of "\<lparr>getStatus = (\<lambda>i. Inr (post ''A'' (Some ''B''))),
          getStatusContext =
            (\<lambda>i. Inr (Some \<lparr>ancestors = [post ''B'' (Some ''A'')], descendants = []\<rparr>))\<rparr>"
      "''A''" "post ''A'' (Some ''B'')" None 0 Map.empty "[post ''B'' (Some ''A'')]"]
  by simp

section \<open>C4: termination and the draining of the pool\<close>

text \<open>
  C4. The build terminates: \<open>locate_loop\<close>, \<open>attach_pass\<close> and \<open>attachStatusesToTree\<close> are
  total functions, each defined with the measure that its loop decreases (the length of the
  pool, or the pool's length minus the index). The attachment loop leaves the pool empty,
  from any state and so for every requested status and every pool; the walk to the root
  never adds to the pool; in a pass the number of statuses attached is the number removed
  from the pool; and the branch taken when a pass attached nothing removes one status. So
  every round of the outer loop that starts with a non-empty pool shortens it, also when
  no status of the pool can be attached.
\<close>

theorem attachStatusesToTree_drains_pool:
  "unsortedStatuses (attachStatusesToTree st) = []
   \<and> unsortedStatuses (build_final requestedStatus ancs descs) = []
   \<and> length (unsortedStatuses (locateRootNode requestedStatus m pool)) \<le> length pool
   \<and> length (unsortedStatuses (fst (attach_pass 0 st 0))) + snd (attach_pass 0 st 0)
       = length (unsortedStatuses st)
   \<and> length (unsortedStatuses (attach_missing st)) = length (unsortedStatuses st) - 1"
proof -
  have "length (unsortedStatuses (locateRootNode requestedStatus m pool)) \<le> length pool"
    unfolding locateRootNode_def
    by (rule order_trans [OF locate_loop_length]) simp
  moreover have "length (unsortedStatuses (fst (attach_pass 0 st 0))) + snd (attach_pass 0 st 0)
       = length (unsortedStatuses st)"
    using attach_pass_length [of 0 st 0] by simp
  ultimately show ?thesis
    by (simp add: attachStatusesToTree_empty build_final_def)
qed

section \<open>C5: identifiers in the returned tree\<close>

text \<open>
  C5, as stated, fails: nothing in the build removes a status that comes twice. With the
  same top-level status \<open>X\<close> among the ancestors and among the descendants, the tree has two
  nodes for the identifier \<open>X\<close>.
\<close>

theorem repeated_status_is_attached_twice:
  "buildThreadTree (post ''P'' None) [post ''X'' None] [post ''X'' None]
     = PostTreeStatusNode 0 (post ''P'' None)
         [PostTreeStatusNode 1 (post ''X'' None) [] False,
          PostTreeStatusNode 2 (post ''X'' None) [] False] True
   \<and> \<not> distinct (ids_of (buildThreadTree (post ''P'' None) [post ''X'' None] [post ''X'' None]))"
  by (simp add: build_eval ids_of_def)

text \<open>
  C5, amended. When the requested status and the statuses of the pool have pairwise
  distinct identifiers, no identifier is wrapped by two nodes of the returned tree. The
  build returns one node, the root, and no node object occurs twice below it (the
  references in the tree are distinct): what is returned is a tree with that one root.
\<close>

theorem distinct_ids_give_distinct_tree:
  assumes "distinct (map status_id (requestedStatus # ancs @ descs))"
  shows "distinct (ids_of (buildThreadTree requestedStatus ancs descs))
    \<and> distinct (refs_of (buildThreadTree requestedStatus ancs descs))"
proof -
  from statuses_within_build_final [of requestedStatus ancs descs]
  have ok: "tree_ok (build_final requestedStatus ancs descs)"
    and sub: "mset (statuses_of (buildThreadTree requestedStatus ancs descs))
      \<subseteq># mset (requestedStatus # ancs @ descs)"
    unfolding statuses_within_def buildThreadTree_def
    by (auto intro: subset_mset.order_trans [OF mset_subset_eq_add_left])
  from sub have "mset (ids_of (buildThreadTree requestedStatus ancs descs))
      \<subseteq># mset (map status_id (requestedStatus # ancs @ descs))"
    unfolding ids_of_def mset_map by (rule image_mset_subseteq_mono)
  then have "distinct (ids_of (buildThreadTree requestedStatus ancs descs))"
    using assms by (rule distinct_mset_subseteq)
  with ok show ?thesis by (simp add: tree_ok_def buildThreadTree_def)
qed

theorem distinct_ids_give_distinct_tree_witness:
  "distinct (ids_of (buildThreadTree (post ''P'' (Some ''Q'')) [post ''Q'' None]
       [post ''C'' (Some ''P'')]))
   \<and> distinct (refs_of (buildThreadTree (post ''P'' (Some ''Q'')) [post ''Q'' None]
       [post ''C'' (Some ''P'')]))"
proof -
  have h: "distinct (map status_id (post ''P'' (Some ''Q'') # [post ''Q'' None]
      @ [post ''C'' (Some ''P'')]))"
    by (simp add: post_def)
  from distinct_ids_give_distinct_tree [OF h] show ?thesis .
qed

section \<open>C6: the incremental patch\<close>

text \<open>
  C6. Let the status nodes of a tree carry pairwise distinct identifiers, and let \<open>c\<close> be
  the highlighted status node without children that wraps the new comment. If the parent
  identifier of the new comment is the identifier \<open>p\<close> of a node of the tree,
  \<^verbatim>\<open>patchNewReply\<close> returns the tree in which the node with identifier \<open>p\<close>, and no other
  node, has \<open>c\<close> as a new last child. If the parent identifier is no identifier of the tree
  (or is \<^verbatim>\<open>null\<close>), it returns the tree with \<open>c\<close> pushed onto the children of the root.
  Nothing is thrown in either case.
\<close>

theorem patchNewReply_attaches_below_parent:
  "distinct (ids_of t) \<Longrightarrow>
   (in_reply_to_id newComment = Some p \<and> p \<in> set (ids_of t) \<longrightarrow>
      patchNewReply r t newComment
        = Inr (attach_below (Some p) (PostTreeStatusNode r newComment [] True) t)
      \<and> gains_child (Inl p) (PostTreeStatusNode r newComment [] True) t
          (attach_below (Some p) (PostTreeStatusNode r newComment [] True) t))
   \<and> (in_reply_to_id newComment \<notin> Some ` set (ids_of t) \<longrightarrow>
      patchNewReply r t newComment
        = Inr (children_push t (PostTreeStatusNode r newComment [] True)))"
  by (auto simp: patchNewReply_distinct attach_below_gains)

theorem patchNewReply_attaches_below_parent_witness:
  "patchNewReply 9
     (PostTreeStatusNode 1 (post ''Q'' None)
        [PostTreeStatusNode 0 (post ''42'' (Some ''Q'')) [] True,
         PostTreeStatusNode 2 (post ''C'' (Some ''Q'')) [] False] False)
     (post ''N'' (Some ''42''))
   = Inr (PostTreeStatusNode 1 (post ''Q'' None)
        [PostTreeStatusNode 0 (post ''42'' (Some ''Q''))
           [PostTreeStatusNode 9 (post ''N'' (Some ''42'')) [] True] True,
         PostTreeStatusNode 2 (post ''C'' (Some ''Q'')) [] False] False)
   \<and> patchNewReply 9
     (PostTreeStatusNode 1 (post ''Q'' None)
        [PostTreeStatusNode 0 (post ''42'' (Some ''Q'')) [] True,
         PostTreeStatusNode 2 (post ''C'' (Some ''Q'')) [] False] False)
     (post ''N'' (Some ''77''))
   = Inr (PostTreeStatusNode 1 (post ''Q'' None)
        [PostTreeStatusNode 0 (post ''42'' (Some ''Q'')) [] True,
         PostTreeStatusNode 2 (post ''C'' (Some ''Q'')) [] False,
         PostTreeStatusNode 9 (post ''N'' (Some ''77'')) [] True] False)"
  using patchNewReply_attaches_below_parent
    [of "PostTreeStatusNode 1 (post ''Q'' None)
        [PostTreeStatusNode 0 (post ''42'' (Some ''Q'')) [] True,
         PostTreeStatusNode 2 (post ''C'' (Some ''Q'')) [] False] False"
      "post ''N'' (Some ''42'')" "''42''" 9]
    patchNewReply_attaches_below_parent
    [of "PostTreeStatusNode 1 (post ''Q'' None)
        [PostTreeStatusNode 0 (post ''42'' (Some ''Q'')) [] True,
         PostTreeStatusNode 2 (post ''C'' (Some ''Q'')) [] False] False"
      "post ''N'' (Some ''77'')" "''77''" 9]
  by (simp add: post_def)

section \<open>C7: a failing context fetch\<close>

text \<open>
  C7. The requested status was fetched and no patch is asked for. If getting the context
  (for the reblogged status when the requested one is a reblog, else for the requested
  status itself) throws, or its response has no data, the result is a tree: a highlighted
  status node wrapping the requested status whose only child is a placeholder without
  children; the message of the placeholder names the post and the failure. Nothing is
  thrown further.
\<close>

theorem context_failure_gives_placeholder_child:
  "getStatus cl postId = Inr requestedStatus \<Longrightarrow>
   context_or_throw (getStatusContext cl (postIdForContext requestedStatus)) = Inl e \<Longrightarrow>
   previousTree = None \<or> newCommentId = None \<Longrightarrow>
   fetchPostInfoTree True cl postId newCommentId previousTree r
     = Inr (PostTreeStatusNode 1 requestedStatus
              [PostTreePlaceholderNode 0 (failure_message postId e) [] False] True)
   \<and> context_or_throw (Inl e) = Inl e
   \<and> context_or_throw (Inr None) = Inl (Error ''status context undefined'')
   \<and> failure_message postId (Error msg)
       = ''Failed to get context for post '' @ postId @ '': '' @ msg
   \<and> failure_message postId NotAnError
       = ''Failed to get context for post '' @ postId @ '': unknown error''
   \<and> postIdForContext (requestedStatus\<lparr>reblog_id := Some original\<rparr>) = original
   \<and> postIdForContext (requestedStatus\<lparr>reblog_id := None\<rparr>) = status_id requestedStatus"
  by (auto simp: fetch_eval split: option.splits)

theorem context_failure_gives_placeholder_child_witness:
  "fetchPostInfoTree True
     \<lparr>getStatus = (\<lambda>i. Inr \<lparr>status_id = ''R'', in_reply_to_id = None, reblog_id = Some ''O''\<rparr>),
      getStatusContext =
        (\<lambda>i. if i = ''O'' then Inl (Error ''Not Found'')
              else Inr (Some \<lparr>ancestors = [], descendants = []\<rparr>))\<rparr>
     ''R'' None None 0
   = Inr (PostTreeStatusNode 1 \<lparr>status_id = ''R'', in_reply_to_id = None, reblog_id = Some ''O''\<rparr>
            [PostTreePlaceholderNode 0 ''Failed to get context for post R: Not Found'' [] False]
            True)"
  using context_failure_gives_placeholder_child
    [of "\<lparr>getStatus = (\<lambda>i. Inr \<lparr>status_id = ''R'', in_reply_to_id = None, reblog_id = Some ''O''\<rparr>),
          getStatusContext =
            (\<lambda>i. if i = ''O'' then Inl (Error ''Not Found'')
                  else Inr (Some \<lparr>ancestors = [], descendants = []\<rparr>))\<rparr>"
      "''R''" "\<lparr>status_id = ''R'', in_reply_to_id = None, reblog_id = Some ''O''\<rparr>"
      "Error ''Not Found''" None None 0]
  by (simp add: context_or_throw_def postIdForContext_def failure_message_def)

section \<open>C8: permuted pools\<close>

text \<open>
  C8, as stated, fails. Requested post \<open>P\<close>; \<open>X\<close> replies to \<open>Z\<close>, which was not fetched, and
  \<open>Y\<close> replies to \<open>X\<close>. From the pool \<open>[X, Y]\<close> the build pops \<open>Y\<close> and then \<open>X\<close>, and both
  become children of the root. From the pool \<open>[Y, X]\<close> it pops \<open>X\<close> first and indexes \<open>X\<close>
  with the placeholder made for it; \<open>Y\<close> is then pushed onto that placeholder, which is
  no node of the tree. The two trees do not have the same edges.
\<close>

theorem permuted_pool_changes_edges:
  "mset ([] @ [post ''Y'' (Some ''X''), post ''X'' (Some ''Z'')])
     = mset ([] @ [post ''X'' (Some ''Z''), post ''Y'' (Some ''X'')])
   \<and> set (edges (buildThreadTree (post ''P'' None) []
              [post ''X'' (Some ''Z''), post ''Y'' (Some ''X'')]))
     = {(Inl ''P'', Inl ''Y''), (Inl ''P'', Inl ''X'')}
   \<and> set (edges (buildThreadTree (post ''P'' None) []
              [post ''Y'' (Some ''X''), post ''X'' (Some ''Z'')]))
     = {(Inl ''P'', Inl ''X'')}
   \<and> set (edges (buildThreadTree (post ''P'' None) []
              [post ''X'' (Some ''Z''), post ''Y'' (Some ''X'')]))
     \<noteq> set (edges (buildThreadTree (post ''P'' None) []
              [post ''Y'' (Some ''X''), post ''X'' (Some ''Z'')]))"
  by (simp add: build_eval)

text \<open>
  C8, amended. Let the requested status and the statuses of the pool have pairwise
  distinct identifiers, and let a second pool be a permutation of the first. If neither
  build comes to the branch for a missing parent (neither creates a placeholder), the two
  trees have the same set of edges.
\<close>

theorem same_edges_for_permuted_pools:
  assumes perm: "mset (ancs2 @ descs2) = mset (ancs1 @ descs1)"
    and dist: "distinct (map status_id (requestedStatus # ancs1 @ descs1))"
    and none1: "detached (build_final requestedStatus ancs1 descs1) = []"
    and none2: "detached (build_final requestedStatus ancs2 descs2) = []"
  shows "set (edges (buildThreadTree requestedStatus ancs1 descs1))
       = set (edges (buildThreadTree requestedStatus ancs2 descs2))"
proof -
  let ?rid = "status_id requestedStatus"
  let ?init = "\<lparr>rootNode = PostTreeStatusNode 0 requestedStatus [] True, detached = [],
       idMap = [status_id requestedStatus \<mapsto> 0], unsortedStatuses = ancs1 @ descs1,
       next_ref = 1\<rparr>"
  let ?st1 = "locateRootNode requestedStatus Map.empty (ancs1 @ descs1)"
  let ?st2 = "locateRootNode requestedStatus Map.empty (ancs2 @ descs2)"
  have "\<exists>zs. locate_loop requestedStatus (?init\<lparr>unsortedStatuses := ancs2 @ descs2\<rparr>)
        = (locate_loop requestedStatus ?init)\<lparr>unsortedStatuses := zs\<rparr>
      \<and> mset zs = mset (unsortedStatuses (locate_loop requestedStatus ?init))"
    using perm dist by (intro locate_loop_permuted) simp_all
  then obtain zs where st2: "?st2 = ?st1\<lparr>unsortedStatuses := zs\<rparr>"
    and zs: "mset zs = mset (unsortedStatuses ?st1)"
    by (auto simp: locateRootNode_def)
  from zs have set_zs: "set zs = set (unsortedStatuses ?st1)" by (rule mset_eq_setD)
  let ?rk = "node_key (rootNode ?st1)"
  let ?E = "set (edges (rootNode ?st1)) \<union> expected_edge ?rid ?rk ` set (unsortedStatuses ?st1)"
  from dist have fresh: "?rid \<notin> status_id ` set (ancs1 @ descs1)" by auto
  have loc1: "located ?rid (set (ancs1 @ descs1)) ?st1" by (rule located_locateRootNode)
  then have inv1: "edges_inv ?rid ?rk ?E ?st1" using fresh by (rule located_edges_inv)
  from loc1 set_zs have "located ?rid (set (ancs1 @ descs1)) (?st1\<lparr>unsortedStatuses := zs\<rparr>)"
    by (simp add: located_def tree_ok_def)
  from located_edges_inv [OF this fresh] set_zs st2 have inv2: "edges_inv ?rid ?rk ?E ?st2"
    by simp
  from edges_inv_final [OF inv1] none1 edges_inv_final [OF inv2] none2 show ?thesis
    by (simp add: buildThreadTree_def build_final_def)
qed

theorem same_edges_for_permuted_pools_witness:
  "set (edges (buildThreadTree (post ''P'' None) []
          [post ''C'' (Some ''P''), post ''D'' (Some ''C'')]))
   = set (edges (buildThreadTree (post ''P'' None) []
          [post ''D'' (Some ''C''), post ''C'' (Some ''P'')]))"
proof -
  have perm: "mset ([] @ [post ''D'' (Some ''C''), post ''C'' (Some ''P'')])
      = mset ([] @ [post ''C'' (Some ''P''), post ''D'' (Some ''C'')])"
    by simp
  have dist: "distinct (map status_id (post ''P'' None # []
      @ [post ''C'' (Some ''P''), post ''D'' (Some ''C'')]))"
    by (simp add: post_def)
  have none1: "detached (build_final (post ''P'' None) []
      [post ''C'' (Some ''P''), post ''D'' (Some ''C'')]) = []"
    by (simp add: build_eval)
  have none2: "detached (build_final (post ''P'' None) []
      [post ''D'' (Some ''C''), post ''C'' (Some ''P'')]) = []"
    by (simp add: build_eval)
  from same_edges_for_permuted_pools [OF perm dist none1 none2] show ?thesis .
qed

section \<open>C9: the two presets of feed rules\<close>

text \<open>
  C9. \<open>defaultHomeFeedRules\<close> is two rules: one with event \<^verbatim>\<open>hidePost\<close> whose condition is
  \<^verbatim>\<open>in_reply_to_id notEqual null\<close>, and one with event \<^verbatim>\<open>attachLinked\<close>. \<open>defaultFeedRules\<close>
  is those two rules followed by a rule with event \<^verbatim>\<open>applyLabel\<close> and label \<^verbatim>\<open>pillbug\<close>,
  whose condition is that the fact \<^verbatim>\<open>application\<close> at path \<^verbatim>\<open>$.name\<close> equals \<^verbatim>\<open>pillbug\<close>.
\<close>

theorem default_rule_presets:
  "map event defaultHomeFeedRules
     = [\<lparr>event_type = ''hidePost'', params_label = None\<rparr>,
        \<lparr>event_type = ''attachLinked'', params_label = None\<rparr>]
   \<and> conditions (hd defaultHomeFeedRules)
     = AllOf [\<lparr>fact = ''in_reply_to_id'', operator = ''notEqual'', path = None, cond_value = Null\<rparr>]
   \<and> take 2 defaultFeedRules = defaultHomeFeedRules
   \<and> map event (drop 2 defaultFeedRules)
     = [\<lparr>event_type = ''applyLabel'', params_label = Some ''pillbug''\<rparr>]
   \<and> map conditions (drop 2 defaultFeedRules)
     = [AllOf [\<lparr>fact = ''application'', operator = ''equal'', path = Some ''$.name'',
              cond_value = Str ''pillbug''\<rparr>]]"
  by (simp add: defaultHomeFeedRules_def defaultFeedRules_def)

section \<open>C10: what the patch leaves unchanged\<close>

text \<open>
  C10. Let the status nodes of a tree carry pairwise distinct identifiers and let
  \<^verbatim>\<open>patchNewReply\<close> return the tree \<open>t'\<close>. Then \<open>t'\<close> is the given tree in which one node has
  one new last child, the highlighted status node without children that wraps the new
  comment, and nothing else differs: every node that was there keeps its status or
  message, its flag and, but for that one node, its children. The patched tree has one
  node more, and its statuses are those of the given tree and the new comment.
\<close>

theorem patchNewReply_frame:
  assumes "distinct (ids_of t)" and "patchNewReply r t newComment = Inr t'"
  shows "(\<exists>k. gains_child k (PostTreeStatusNode r newComment [] True) t t')
    \<and> node_count t' = Suc (node_count t)
    \<and> mset (statuses_of t') = add_mset newComment (mset (statuses_of t))"
proof -
  let ?c = "PostTreeStatusNode r newComment [] True"
  have "\<exists>k. gains_child k ?c t t'"
  proof (cases "in_reply_to_id newComment \<in> Some ` set (ids_of t)")
    case True
    then obtain p where p: "in_reply_to_id newComment = Some p" "p \<in> set (ids_of t)" by auto
    with assms True have "t' = attach_below (Some p) ?c t"
      by (simp add: patchNewReply_distinct)
    with attach_below_gains [OF assms(1) p(2), of ?c] show ?thesis by blast
  next
    case False
    with assms have "t' = children_push t ?c"
      by (simp add: patchNewReply_distinct)
    with gains_child.here [of t "node_key t" ?c] show ?thesis by blast
  qed
  then obtain k where "gains_child k ?c t t'" by blast
  then show ?thesis
    using gains_child_node_count [of k ?c t t'] gains_child_statuses [of k ?c t t'] by auto
qed

theorem patchNewReply_frame_witness:
  "(\<exists>k. gains_child k (PostTreeStatusNode 9 (post ''N'' (Some ''C'')) [] True)
      (PostTreeStatusNode 1 (post ''Q'' None)
         [PostTreePlaceholderNode 3 ''gap'' [PostTreeStatusNode 2 (post ''C'' (Some ''Z'')) [] False]
            False] True)
      (PostTreeStatusNode 1 (post ''Q'' None)
         [PostTreePlaceholderNode 3 ''gap''
            [PostTreeStatusNode 2 (post ''C'' (Some ''Z''))
               [PostTreeStatusNode 9 (post ''N'' (Some ''C'')) [] True] False]
            False] True))
   \<and> node_count
        (PostTreeStatusNode 1 (post ''Q'' None)
           [PostTreePlaceholderNode 3 ''gap''
              [PostTreeStatusNode 2 (post ''C'' (Some ''Z''))
                 [PostTreeStatusNode 9 (post ''N'' (Some ''C'')) [] True] False]
              False] True) = Suc 3"
proof -
  let ?t = "PostTreeStatusNode 1 (post ''Q'' None)
         [PostTreePlaceholderNode 3 ''gap'' [PostTreeStatusNode 2 (post ''C'' (Some ''Z'')) [] False]
            False] True"
  let ?t' = "PostTreeStatusNode 1 (post ''Q'' None)
         [PostTreePlaceholderNode 3 ''gap''
            [PostTreeStatusNode 2 (post ''C'' (Some ''Z''))
               [PostTreeStatusNode 9 (post ''N'' (Some ''C'')) [] True] False]
            False] True"
  have d: "distinct (ids_of ?t)" by (simp add: post_def)
  have p: "patchNewReply 9 ?t (post ''N'' (Some ''C'')) = Inr ?t'"
    by (simp add: patchNewReply_def post_def)
  from patchNewReply_frame [OF d p] show ?thesis by simp
qed

end
